theory Spec2Isabelle
  imports Main "HOL-Library.Multiset"
begin

section \<open>Simple utility PTransforms of \<^verbatim>\<open>apache_beam/transforms/util.py\<close>\<close>

text \<open>
  A PCollection is modelled by the list of its elements (one materialisation of the bag)
  together with the pipeline that owns it. Python exceptions are values of \<open>py_error\<close>;
  a computation that may raise returns \<open>py_error + 'a\<close>, with \<open>Inl\<close> the exception.
\<close>

datatype py_error = ValueError | AssertionError | KeyError | IndexError | TypeError
  | AttributeError | RuntimeError | TransformError

record ('p, 'e) pcoll =
  pcoll_pipeline :: "'p option"
  elements :: "'e list"

subsection \<open>Primitives of \<^verbatim>\<open>apache_beam.transforms.core\<close>\<close>

text \<open>
  Modelled from the spec: \<^verbatim>\<open>Map\<close> of \<^verbatim>\<open>apache_beam.transforms.core\<close>
  (the spec's \<^verbatim>\<open>ElementwiseMap(collection, fn, ...closure-args) -> collection\<close>),
  which applies \<open>fn\<close> to every element.
\<close>

definition beam_Map :: "('a \<Rightarrow> 'b) \<Rightarrow> 'a list \<Rightarrow> 'b list" where
  "beam_Map fn pcoll = map fn pcoll"

text \<open>
  A PCollection that \<^verbatim>\<open>Map\<close> produces belongs to the pipeline of its input.
\<close>

definition pcoll_Map :: "('a \<Rightarrow> 'b) \<Rightarrow> ('p, 'a) pcoll \<Rightarrow> ('p, 'b) pcoll" where
  "pcoll_Map fn pcoll = \<lparr>pcoll_pipeline = pcoll_pipeline pcoll, elements = beam_Map fn (elements pcoll)\<rparr>"

text \<open>
  The truth value of a Python object that may be \<^verbatim>\<open>None\<close>: \<^verbatim>\<open>None\<close> is false, and
  the truth value of a pipeline object is the parameter \<open>truthy\<close>.
\<close>

definition py_bool :: "('p \<Rightarrow> bool) \<Rightarrow> 'p option \<Rightarrow> bool" where
  "py_bool truthy x = (case x of None \<Rightarrow> False | Some p \<Rightarrow> truthy p)"

text \<open>
  Modelled from the spec: \<^verbatim>\<open>Flatten(pipeline=...)\<close> of
  \<^verbatim>\<open>apache_beam.transforms.core\<close> applied to a list of collections (the spec's
  \<^verbatim>\<open>Union\<close>), which concatenates collections of one element type into one, together with
  the engine's validation of the execution contexts (spec 3 and 4.1: all input
  collections must belong to the same execution context, and this is validated; spec 9:
  without an explicit context it is inferred from the first collection). With no
  collection at all the \<^verbatim>\<open>pipeline\<close> argument is the only source of the pipeline (class
  docstring of \<^verbatim>\<open>CoGroupByKey\<close>), and without it the application raises. The
  validation raises ValueError.
\<close>

definition Flatten :: "('p \<Rightarrow> bool) \<Rightarrow> 'p option \<Rightarrow> ('p, 'a) pcoll list \<Rightarrow> py_error + ('p, 'a) pcoll" where
  "Flatten truthy pipeline' pcolls =
     (case pcolls of
        [] \<Rightarrow>
          (case pipeline' of
             None \<Rightarrow> Inl ValueError
           | Some p \<Rightarrow> Inr \<lparr>pcoll_pipeline = pipeline', elements = []\<rparr>)
      | pcoll # _ \<Rightarrow>
          (let p = (if py_bool truthy pipeline' then pipeline' else pcoll_pipeline pcoll)
           in if list_all (\<lambda>c. pcoll_pipeline c = p) pcolls
              then Inr \<lparr>pcoll_pipeline = p, elements = concat (map elements pcolls)\<rparr>
              else Inl ValueError))"

text \<open>
  Modelled from the spec: \<^verbatim>\<open>GroupByKey\<close> of \<^verbatim>\<open>apache_beam.transforms.core\<close>
  (the spec's \<^verbatim>\<open>GroupByKey(collection<(K,V)>) -> collection<(K, sequence<V>)>\<close>).
  Its contract: one row for every distinct key present, holding the values that carried
  the key; the order of the rows is not specified. \<open>GroupByKey_rel pcoll rows\<close> says
  that \<open>rows\<close> is an admissible result for \<open>pcoll\<close>, and a grouper is any function
  whose results are admissible.
\<close>

definition GroupByKey_rel :: "('k \<times> 'a) list \<Rightarrow> ('k \<times> 'a list) list \<Rightarrow> bool" where
  "GroupByKey_rel pcoll rows \<longleftrightarrow>
     distinct (map fst rows) \<and> set (map fst rows) = set (map fst pcoll) \<and>
     (\<forall>row \<in> set rows.
        mset (snd row) = mset (map snd (filter (\<lambda>kv. fst kv = fst row) pcoll)))"

definition is_GroupByKey :: "(('k \<times> 'a) list \<Rightarrow> ('k \<times> 'a list) list) \<Rightarrow> bool" where
  "is_GroupByKey gbk \<longleftrightarrow> (\<forall>pcoll. GroupByKey_rel pcoll (gbk pcoll))"

text \<open>
  Modelled from the spec: a grouper that the contract of \<^verbatim>\<open>GroupByKey\<close> admits. It
  lists the keys in order of first occurrence and keeps the values of a key in the order
  of the input.
\<close>

definition GroupByKey_ordered :: "('k \<times> 'a) list \<Rightarrow> ('k \<times> 'a list) list" where
  "GroupByKey_ordered pcoll =
     map (\<lambda>k. (k, map snd (filter (\<lambda>kv. fst kv = k) pcoll))) (remdups (map fst pcoll))"

text \<open>
  Modelled from the spec: \<^verbatim>\<open>CombinePerKey\<close> of \<^verbatim>\<open>apache_beam.transforms.core\<close>
  (the spec's \<^verbatim>\<open>PerKeyReduce(collection<(K,V)>, fn) -> collection<(K,V')>\<close>), which
  reduces all the values of a key to \<open>fn\<close> of them, one row per key.
\<close>

definition CombinePerKey :: "(('k \<times> 'a) list \<Rightarrow> ('k \<times> 'a list) list) \<Rightarrow> ('a list \<Rightarrow> 'b)
    \<Rightarrow> ('k \<times> 'a) list \<Rightarrow> ('k \<times> 'b) list" where
  "CombinePerKey gbk fn pcoll = beam_Map (\<lambda>row. (fst row, fn (snd row))) (gbk pcoll)"

subsection \<open>Keys, Values, KvSwap\<close>

definition Keys :: "('k \<times> 'v) list \<Rightarrow> 'k list" where
  "Keys = beam_Map (\<lambda>k_v. fst k_v)"

definition Values :: "('k \<times> 'v) list \<Rightarrow> 'v list" where
  "Values = beam_Map (\<lambda>k_v1. snd k_v1)"

definition KvSwap :: "('k \<times> 'v) list \<Rightarrow> ('v \<times> 'k) list" where
  "KvSwap = beam_Map (\<lambda>k_v2. (snd k_v2, fst k_v2))"

subsection \<open>RemoveDuplicates\<close>

text \<open>Python's \<^verbatim>\<open>None\<close> paired with every element is the unit value.\<close>

definition RemoveDuplicates :: "(('a \<times> unit) list \<Rightarrow> ('a \<times> unit list) list) \<Rightarrow> 'a list \<Rightarrow> 'a list" where
  "RemoveDuplicates gbk pcoll =
     Keys (CombinePerKey gbk (\<lambda>vs. ()) (beam_Map (\<lambda>v. (v, ())) pcoll))"

subsection \<open>The constructor of CoGroupByKey\<close>

record 'p CoGroupByKey =
  pipeline :: "'p option"

text \<open>
  \<^verbatim>\<open>**kwargs\<close> is the association list of the keyword arguments; a value \<open>None\<close> is
  Python's \<^verbatim>\<open>None\<close>. \<^verbatim>\<open>kwargs.pop('pipeline', None)\<close> reads the entry and removes it;
  what is left must be empty.
\<close>

definition kwargs_pop :: "(string \<times> 'p option) list \<Rightarrow> string
    \<Rightarrow> 'p option \<times> (string \<times> 'p option) list" where
  "kwargs_pop kwargs name =
     ((case map_of kwargs name of None \<Rightarrow> None | Some v \<Rightarrow> v),
      filter (\<lambda>kv. fst kv \<noteq> name) kwargs)"

definition CoGroupByKey_init :: "(string \<times> 'p option) list \<Rightarrow> py_error + 'p CoGroupByKey" where
  "CoGroupByKey_init kwargs =
     (case kwargs_pop kwargs ''pipeline'' of
        (p, kwargs') \<Rightarrow>
          if kwargs' \<noteq> [] then Inl ValueError else Inr \<lparr>pipeline = p\<rparr>)"

subsection \<open>CoGroupByKey.expand\<close>

text \<open>
  A tag is a key of the input dict or, for a flat iterable of PCollections, the index
  that \<^verbatim>\<open>enumerate\<close> gives. A key of a dict is an integer, a tuple of keys or any other
  hashable object. The value of an output row is a dict from tags to lists or a tuple
  of lists.
\<close>

datatype 't tag = Index int | Name 't | TupleTag "'t tag list"

datatype ('t, 'v) result_value =
  DictValue "'t tag \<rightharpoonup> 'v list" | TupleValue "'v list list"

datatype ('t, 'c) pvalueish = DictInput "('t tag \<times> 'c) list" | SeqInput "'c list"

definition pair_tag_with_value :: "'k \<times> 'v \<Rightarrow> 't tag \<Rightarrow> 'k \<times> ('t tag \<times> 'v)" where
  "pair_tag_with_value key_value tag = (case key_value of (key, value) \<Rightarrow> (key, (tag, value)))"

text \<open>
  \<^verbatim>\<open>result_value[tag].append(value)\<close>: a dict raises KeyError on a missing key; a tuple
  takes an integer index, counts a negative one from the end and raises IndexError out
  of range, and raises TypeError for an index that is not an integer.
\<close>

fun getitem_append :: "('t, 'v) result_value \<Rightarrow> 't tag \<Rightarrow> 'v \<Rightarrow> py_error + ('t, 'v) result_value" where
  "getitem_append (DictValue d) tag value =
     (case d tag of
        None \<Rightarrow> Inl KeyError
      | Some vs \<Rightarrow> Inr (DictValue (d(tag \<mapsto> vs @ [value]))))"
| "getitem_append (TupleValue t) (Index i) value =
     (let n = int (length t); j = (if i < 0 then n + i else i)
      in if 0 \<le> j \<and> j < n then Inr (TupleValue (t[nat j := t ! nat j @ [value]]))
         else Inl IndexError)"
| "getitem_append (TupleValue t) (Name _) value = Inl TypeError"
| "getitem_append (TupleValue t) (TupleTag _) value = Inl TypeError"

fun merge_loop :: "('t, 'v) result_value \<Rightarrow> ('t tag \<times> 'v) list \<Rightarrow> py_error + ('t, 'v) result_value" where
  "merge_loop result_value [] = Inr result_value"
| "merge_loop result_value ((tag, value) # grouped) =
     (case getitem_append result_value tag value of
        Inl e \<Rightarrow> Inl e
      | Inr result_value' \<Rightarrow> merge_loop result_value' grouped)"

definition merge_tagged_vals_under_key :: "'k \<times> ('t tag \<times> 'v) list \<Rightarrow> ('a \<Rightarrow> ('t, 'v) result_value) \<Rightarrow> 'a
    \<Rightarrow> py_error + ('k \<times> ('t, 'v) result_value)" where
  "merge_tagged_vals_under_key key_grouped result_ctor result_ctor_arg =
     (case key_grouped of (key, grouped) \<Rightarrow>
        (case merge_loop (result_ctor result_ctor_arg) grouped of
           Inl e \<Rightarrow> Inl e
         | Inr result_value \<Rightarrow> Inr (key, result_value)))"

text \<open>The two result constructors of \<^verbatim>\<open>expand\<close>.\<close>

definition result_ctor_dict :: "'t tag list \<Rightarrow> ('t, 'v) result_value" where
  "result_ctor_dict tags = DictValue (map_of (map (\<lambda>tag. (tag, [])) tags))"

definition result_ctor_tuple :: "nat \<Rightarrow> ('t, 'v) result_value" where
  "result_ctor_tuple size' = TupleValue (map (\<lambda>_. []) [0..<size'])"

definition enumerate_pcolls :: "'c list \<Rightarrow> ('t tag \<times> 'c) list" where
  "enumerate_pcolls pcolls = zip (map (\<lambda>i. Index (int i)) [0..<length pcolls]) pcolls"

text \<open>
  The loop that checks the inputs. \<^verbatim>\<open>_check_pcollection\<close> belongs to the base class
  \<^verbatim>\<open>PTransform\<close> and is a parameter \<open>chk\<close> (\<open>Some e\<close> when it raises \<open>e\<close>).
\<close>

fun check_loop :: "(('p, 'e) pcoll \<Rightarrow> py_error option) \<Rightarrow> ('p \<Rightarrow> bool) \<Rightarrow> 'p CoGroupByKey
    \<Rightarrow> ('t tag \<times> ('p, 'e) pcoll) list \<Rightarrow> py_error option" where
  "check_loop chk truthy self [] = None"
| "check_loop chk truthy self ((_, pcoll) # pcolls) =
     (case chk pcoll of
        Some e \<Rightarrow> Some e
      | None \<Rightarrow>
          if py_bool truthy (pipeline self) then
            (if pcoll_pipeline pcoll = pipeline self then check_loop chk truthy self pcolls
             else Some AssertionError)
          else check_loop chk truthy self pcolls)"

text \<open>
  A \<^verbatim>\<open>Map\<close> whose function raises on some element fails as a whole, with the first
  exception.
\<close>

fun collect_rows :: "(py_error + 'a) list \<Rightarrow> py_error + 'a list" where
  "collect_rows [] = Inr []"
| "collect_rows (Inl e # rs) = Inl e"
| "collect_rows (Inr r # rs) = (case collect_rows rs of Inl e \<Rightarrow> Inl e | Inr out \<Rightarrow> Inr (r # out))"

text \<open>
  The step label \<^verbatim>\<open>'pair_with_%s' % tag\<close>. The operator takes a tuple on its right as
  the tuple of the arguments: a tuple of one element gives that element, and a tuple of
  any other length raises TypeError. \<open>str_of\<close> is Python's \<^verbatim>\<open>str\<close> on a tag.
\<close>

fun pair_with_label :: "('t tag \<Rightarrow> string) \<Rightarrow> 't tag \<Rightarrow> py_error + string" where
  "pair_with_label str_of (TupleTag [x]) = Inr (''pair_with_'' @ str_of x)"
| "pair_with_label str_of (TupleTag xs) = Inl TypeError"
| "pair_with_label str_of tag = Inr (''pair_with_'' @ str_of tag)"

text \<open>
  The list comprehension of \<^verbatim>\<open>expand\<close>: for every (tag, pcoll) pair, in order, the
  label is formatted and the step \<^verbatim>\<open>pcoll | label >> Map(_pair_tag_with_value, tag)\<close> is
  applied. The application is made by the engine (\<^verbatim>\<open>Pipeline.apply\<close>, not in this
  file), which may refuse a step, for instance one whose label is in use already: it is
  the parameter \<open>apply_step\<close>, given the labels applied so far, the label and the input
  (\<open>Some e\<close> when it raises \<open>e\<close>).
\<close>

fun pair_loop :: "('t tag \<Rightarrow> string) \<Rightarrow> (string list \<Rightarrow> string \<Rightarrow> ('p, 'k \<times> 'v) pcoll \<Rightarrow> py_error option)
    \<Rightarrow> string list \<Rightarrow> ('t tag \<times> ('p, 'k \<times> 'v) pcoll) list
    \<Rightarrow> py_error + ('p, 'k \<times> ('t tag \<times> 'v)) pcoll list" where
  "pair_loop str_of apply_step labels [] = Inr []"
| "pair_loop str_of apply_step labels ((tag, pcoll) # pcolls) =
     (case pair_with_label str_of tag of
        Inl e \<Rightarrow> Inl e
      | Inr label \<Rightarrow>
          (case apply_step labels label pcoll of
             Some e \<Rightarrow> Inl e
           | None \<Rightarrow>
               (case pair_loop str_of apply_step (labels @ [label]) pcolls of
                  Inl e \<Rightarrow> Inl e
                | Inr paired \<Rightarrow>
                    Inr (pcoll_Map (\<lambda>key_value. pair_tag_with_value key_value tag) pcoll
                         # paired))))"

text \<open>
  The construction of the pipeline in \<^verbatim>\<open>expand\<close>, on the (tag, pcoll) pairs: the check
  of the inputs, the pairing of every source with its tag, and
  \<^verbatim>\<open>Flatten(pipeline=self.pipeline)\<close>. It gives the flattened collection or the first
  exception.
\<close>

definition construction :: "(('p, 'k \<times> 'v) pcoll \<Rightarrow> py_error option) \<Rightarrow> ('p \<Rightarrow> bool)
    \<Rightarrow> ('t tag \<Rightarrow> string) \<Rightarrow> (string list \<Rightarrow> string \<Rightarrow> ('p, 'k \<times> 'v) pcoll \<Rightarrow> py_error option)
    \<Rightarrow> 'p CoGroupByKey \<Rightarrow> ('t tag \<times> ('p, 'k \<times> 'v) pcoll) list
    \<Rightarrow> py_error + ('p, 'k \<times> ('t tag \<times> 'v)) pcoll" where
  "construction chk truthy str_of apply_step self pcolls =
     (case check_loop chk truthy self pcolls of
        Some e \<Rightarrow> Inl e
      | None \<Rightarrow>
          (case pair_loop str_of apply_step [] pcolls of
             Inl e \<Rightarrow> Inl e
           | Inr paired \<Rightarrow> Flatten truthy (pipeline self) paired))"

text \<open>
  The general-purpose part of \<^verbatim>\<open>expand\<close>: the construction, then GroupByKey on the
  flattened collection and the merge of every grouped row. The grouper \<open>gbk\<close> is the
  \<^verbatim>\<open>GroupByKey\<close> of the engine.
\<close>

definition expand_pairs :: "(('p, 'k \<times> 'v) pcoll \<Rightarrow> py_error option) \<Rightarrow> ('p \<Rightarrow> bool)
    \<Rightarrow> ('t tag \<Rightarrow> string) \<Rightarrow> (string list \<Rightarrow> string \<Rightarrow> ('p, 'k \<times> 'v) pcoll \<Rightarrow> py_error option)
    \<Rightarrow> (('k \<times> ('t tag \<times> 'v)) list \<Rightarrow> ('k \<times> ('t tag \<times> 'v) list) list)
    \<Rightarrow> 'p CoGroupByKey \<Rightarrow> ('a \<Rightarrow> ('t, 'v) result_value) \<Rightarrow> 'a
    \<Rightarrow> ('t tag \<times> ('p, 'k \<times> 'v) pcoll) list
    \<Rightarrow> py_error + ('k \<times> ('t, 'v) result_value) list" where
  "expand_pairs chk truthy str_of apply_step gbk self result_ctor result_ctor_arg pcolls =
     (case construction chk truthy str_of apply_step self pcolls of
        Inl e \<Rightarrow> Inl e
      | Inr flat \<Rightarrow>
          collect_rows
            (beam_Map (\<lambda>key_grouped.
                 merge_tagged_vals_under_key key_grouped result_ctor result_ctor_arg)
               (gbk (elements flat))))"

definition expand :: "(('p, 'k \<times> 'v) pcoll \<Rightarrow> py_error option) \<Rightarrow> ('p \<Rightarrow> bool)
    \<Rightarrow> ('t tag \<Rightarrow> string) \<Rightarrow> (string list \<Rightarrow> string \<Rightarrow> ('p, 'k \<times> 'v) pcoll \<Rightarrow> py_error option)
    \<Rightarrow> (('k \<times> ('t tag \<times> 'v)) list \<Rightarrow> ('k \<times> ('t tag \<times> 'v) list) list)
    \<Rightarrow> 'p CoGroupByKey \<Rightarrow> ('t, ('p, 'k \<times> 'v) pcoll) pvalueish
    \<Rightarrow> py_error + ('k \<times> ('t, 'v) result_value) list" where
  "expand chk truthy str_of apply_step gbk self pcolls =
     (case pcolls of
        DictInput d \<Rightarrow>
          expand_pairs chk truthy str_of apply_step gbk self result_ctor_dict (map fst d) d
      | SeqInput s \<Rightarrow>
          (let pcolls' = enumerate_pcolls s
           in expand_pairs chk truthy str_of apply_step gbk self
                result_ctor_tuple (length pcolls') pcolls'))"

text \<open>The (tag, pcoll) pairs and the check of the inputs, as \<^verbatim>\<open>expand\<close> sees them.\<close>

definition input_pairs :: "('t, 'c) pvalueish \<Rightarrow> ('t tag \<times> 'c) list" where
  "input_pairs pcolls = (case pcolls of DictInput d \<Rightarrow> d | SeqInput s \<Rightarrow> enumerate_pcolls s)"

text \<open>
  For the examples below: Python's \<^verbatim>\<open>str\<close> on the tags that occur in them (the
  indices 0 and 1, and names, which are strings), and an engine that accepts every step
  with a new label and refuses a label that is in use.
\<close>

definition str_of_example :: "string tag \<Rightarrow> string" where
  "str_of_example tag =
     (case tag of Index i \<Rightarrow> (if i = 0 then ''0'' else ''1'') | Name x \<Rightarrow> x | TupleTag xs \<Rightarrow> [])"

definition apply_new_label :: "string list \<Rightarrow> string \<Rightarrow> 'c \<Rightarrow> py_error option" where
  "apply_new_label labels label pcoll = (if label \<in> set labels then Some RuntimeError else None)"

definition input_keys :: "('t, ('p, 'k \<times> 'v) pcoll) pvalueish \<Rightarrow> 'k set" where
  "input_keys pcolls = (\<Union>tc \<in> set (input_pairs pcolls). fst ` set (elements (snd tc)))"

subsection \<open>The merge on a shared store\<close>

text \<open>
  In Python the lists, the dict and the tuple of a row are objects, and
  \<^verbatim>\<open>result_value[tag].append(value)\<close> mutates a list in place. To speak about which
  objects the rows share, the store is explicit: a heap is the list of the objects
  allocated so far, an address is an index into it, and a new object takes the next
  address. A dict or a tuple holds the addresses of its lists.
\<close>

type_synonym addr = nat

datatype ('t, 'v) obj =
  ListObj "'v list" | DictObj "'t tag \<rightharpoonup> addr" | TupleObj "addr list"

definition new_obj :: "('t, 'v) obj \<Rightarrow> ('t, 'v) obj list \<Rightarrow> addr \<times> ('t, 'v) obj list" where
  "new_obj x h = (length h, h @ [x])"

text \<open>The generator \<^verbatim>\<open>[] for ...\<close> evaluated \<open>n\<close> times: \<open>n\<close> new empty lists.\<close>

fun new_lists :: "nat \<Rightarrow> ('t, 'v) obj list \<Rightarrow> addr list \<times> ('t, 'v) obj list" where
  "new_lists 0 h = ([], h)"
| "new_lists (Suc n) h =
     (case new_obj (ListObj []) h of (a, h') \<Rightarrow>
        (case new_lists n h' of (as, h'') \<Rightarrow> (a # as, h'')))"

text \<open>
  \<^verbatim>\<open>dict((tag, []) for tag in tags)\<close>: one new list per element of \<open>tags\<close>, and a later
  pair replaces an earlier one with the same tag.
  \<^verbatim>\<open>tuple([] for _ in xrange(size))\<close>: \<open>size\<close> new lists.
\<close>

definition heap_ctor_dict :: "'t tag list \<Rightarrow> ('t, 'v) obj list \<Rightarrow> addr \<times> ('t, 'v) obj list" where
  "heap_ctor_dict tags h =
     (case new_lists (length tags) h of (as, h') \<Rightarrow>
        new_obj (DictObj (map_of (rev (zip tags as)))) h')"

definition heap_ctor_tuple :: "nat \<Rightarrow> ('t, 'v) obj list \<Rightarrow> addr \<times> ('t, 'v) obj list" where
  "heap_ctor_tuple size' h =
     (case new_lists size' h of (as, h') \<Rightarrow> new_obj (TupleObj as) h')"

text \<open>
  The pair of \<^verbatim>\<open>result_ctor\<close> and \<^verbatim>\<open>result_ctor_arg\<close> that \<^verbatim>\<open>expand\<close> chooses: the
  tags of the dict, or the number of the inputs.
\<close>

datatype 't result_shape = DictShape "'t tag list" | TupleShape nat

fun heap_result_ctor :: "'t result_shape \<Rightarrow> ('t, 'v) obj list \<Rightarrow> addr \<times> ('t, 'v) obj list" where
  "heap_result_ctor (DictShape tags) h = heap_ctor_dict tags h"
| "heap_result_ctor (TupleShape size') h = heap_ctor_tuple size' h"

fun pure_result_ctor :: "'t result_shape \<Rightarrow> ('t, 'v) result_value" where
  "pure_result_ctor (DictShape tags) = result_ctor_dict tags"
| "pure_result_ctor (TupleShape size') = result_ctor_tuple size'"

text \<open>
  \<^verbatim>\<open>l.append(value)\<close> on the object at \<open>l\<close>, and \<^verbatim>\<open>result_value[tag].append(value)\<close> on
  the container at \<open>a\<close>. An object that is not a list has no \<^verbatim>\<open>append\<close>.
\<close>

definition list_append :: "addr \<Rightarrow> 'v \<Rightarrow> ('t, 'v) obj list \<Rightarrow> py_error + ('t, 'v) obj list" where
  "list_append l value h =
     (if l < length h then
        (case h ! l of
           ListObj vs \<Rightarrow> Inr (h[l := ListObj (vs @ [value])])
         | _ \<Rightarrow> Inl AttributeError)
      else Inl AttributeError)"

definition heap_getitem_append :: "addr \<Rightarrow> 't tag \<Rightarrow> 'v \<Rightarrow> ('t, 'v) obj list
    \<Rightarrow> py_error + ('t, 'v) obj list" where
  "heap_getitem_append a tag value h =
     (if a < length h then
        (case h ! a of
           DictObj d \<Rightarrow>
             (case d tag of None \<Rightarrow> Inl KeyError | Some l \<Rightarrow> list_append l value h)
         | TupleObj as \<Rightarrow>
             (case tag of
                Index i \<Rightarrow>
                  (let n = int (length as); j = (if i < 0 then n + i else i)
                   in if 0 \<le> j \<and> j < n then list_append (as ! nat j) value h
                      else Inl IndexError)
              | Name _ \<Rightarrow> Inl TypeError
              | TupleTag _ \<Rightarrow> Inl TypeError)
         | ListObj vs \<Rightarrow> Inl TypeError)
      else Inl TypeError)"

text \<open>
  The run of \<^verbatim>\<open>_merge_tagged_vals_under_key\<close> on one grouped row, one statement at a
  time: before the call of \<^verbatim>\<open>result_ctor\<close>; inside the loop, with the container and the
  entries still to come; returned; or raised.
\<close>

datatype ('k, 't, 'v) task =
  Start 'k "('t tag \<times> 'v) list"
  | Running 'k addr "('t tag \<times> 'v) list"
  | Done 'k addr
  | Failed py_error

fun task_step :: "('a \<Rightarrow> ('t, 'v) obj list \<Rightarrow> addr \<times> ('t, 'v) obj list) \<Rightarrow> 'a
    \<Rightarrow> ('k, 't, 'v) task \<Rightarrow> ('t, 'v) obj list \<Rightarrow> ('k, 't, 'v) task \<times> ('t, 'v) obj list" where
  "task_step result_ctor result_ctor_arg (Start key grouped) h =
     (case result_ctor result_ctor_arg h of (result_value, h') \<Rightarrow>
        (Running key result_value grouped, h'))"
| "task_step result_ctor result_ctor_arg (Running key result_value []) h =
     (Done key result_value, h)"
| "task_step result_ctor result_ctor_arg (Running key result_value ((tag, value) # grouped)) h =
     (case heap_getitem_append result_value tag value h of
        Inl e \<Rightarrow> (Failed e, h)
      | Inr h' \<Rightarrow> (Running key result_value grouped, h'))"
| "task_step result_ctor result_ctor_arg (Done key result_value) h = (Done key result_value, h)"
| "task_step result_ctor result_ctor_arg (Failed e) h = (Failed e, h)"

text \<open>
  The engine merges the grouped rows in any order, possibly interleaved: a schedule names,
  step by step, the row whose merge makes its next step. All the merges work on one heap.
\<close>

fun run_schedule :: "('a \<Rightarrow> ('t, 'v) obj list \<Rightarrow> addr \<times> ('t, 'v) obj list) \<Rightarrow> 'a \<Rightarrow> nat list
    \<Rightarrow> ('k, 't, 'v) task list \<times> ('t, 'v) obj list
    \<Rightarrow> ('k, 't, 'v) task list \<times> ('t, 'v) obj list" where
  "run_schedule result_ctor result_ctor_arg [] st = st"
| "run_schedule result_ctor result_ctor_arg (i # sched) (ts, h) =
     (if i < length ts then
        (case task_step result_ctor result_ctor_arg (ts ! i) h of (t', h') \<Rightarrow>
           run_schedule result_ctor result_ctor_arg sched (ts[i := t'], h'))
      else run_schedule result_ctor result_ctor_arg sched (ts, h))"

definition start_tasks :: "('k \<times> ('t tag \<times> 'v) list) list \<Rightarrow> ('k, 't, 'v) task list" where
  "start_tasks rows = map (\<lambda>key_grouped. Start (fst key_grouped) (snd key_grouped)) rows"

text \<open>
  What a container on the heap holds, as a value; the objects a container consists of;
  and the containers that are well formed: the dict or tuple holds the addresses of
  lists, each of them once.
\<close>

definition list_at :: "('t, 'v) obj list \<Rightarrow> addr \<Rightarrow> 'v list option" where
  "list_at h l =
     (if l < length h then (case h ! l of ListObj vs \<Rightarrow> Some vs | _ \<Rightarrow> None) else None)"

definition read_value :: "('t, 'v) obj list \<Rightarrow> addr \<Rightarrow> ('t, 'v) result_value option" where
  "read_value h a =
     (if a < length h then
        (case h ! a of
           DictObj d \<Rightarrow> Some (DictValue (\<lambda>tag. Option.bind (d tag) (list_at h)))
         | TupleObj as \<Rightarrow>
             Some (TupleValue (map (\<lambda>l. case list_at h l of Some vs \<Rightarrow> vs | None \<Rightarrow> []) as))
         | ListObj vs \<Rightarrow> None)
      else None)"

fun cells :: "('t, 'v) obj \<Rightarrow> addr set" where
  "cells (ListObj vs) = {}"
| "cells (DictObj d) = ran d"
| "cells (TupleObj as) = set as"

definition owned :: "('t, 'v) obj list \<Rightarrow> addr \<Rightarrow> addr set" where
  "owned h a = insert a (cells (h ! a))"

definition container_ok :: "('t, 'v) obj list \<Rightarrow> addr \<Rightarrow> bool" where
  "container_ok h a \<longleftrightarrow>
     a < length h \<and>
     (case h ! a of
        ListObj vs \<Rightarrow> False
      | DictObj d \<Rightarrow> inj_on d (dom d) \<and> (\<forall>l \<in> ran d. list_at h l \<noteq> None)
      | TupleObj as \<Rightarrow> distinct as \<and> (\<forall>l \<in> set as. list_at h l \<noteq> None))"

text \<open>
  The invariant of a run: every row's task agrees with the merge of that row alone, on
  the entries it has consumed; the objects of different tasks are disjoint; and all of
  them were allocated after the start.
\<close>

fun task_owned :: "('t, 'v) obj list \<Rightarrow> ('k, 't, 'v) task \<Rightarrow> addr set" where
  "task_owned h (Running key a grouped) = owned h a"
| "task_owned h (Done key a) = owned h a"
| "task_owned h (Start key grouped) = {}"
| "task_owned h (Failed e) = {}"

fun task_inv :: "'t result_shape \<Rightarrow> ('t, 'v) obj list \<Rightarrow> 'k \<times> ('t tag \<times> 'v) list
    \<Rightarrow> ('k, 't, 'v) task \<Rightarrow> bool" where
  "task_inv shape h row (Start key grouped) \<longleftrightarrow> row = (key, grouped)"
| "task_inv shape h row (Running key a pending) \<longleftrightarrow>
     key = fst row \<and> container_ok h a \<and>
     (\<exists>consumed v. snd row = consumed @ pending \<and>
        merge_loop (pure_result_ctor shape) consumed = Inr v \<and> read_value h a = Some v)"
| "task_inv shape h row (Done key a) \<longleftrightarrow>
     key = fst row \<and> container_ok h a \<and>
     (\<exists>v. merge_loop (pure_result_ctor shape) (snd row) = Inr v \<and> read_value h a = Some v)"
| "task_inv shape h row (Failed e) \<longleftrightarrow>
     merge_loop (pure_result_ctor shape) (snd row) = Inl e"

definition run_inv :: "'t result_shape \<Rightarrow> ('k \<times> ('t tag \<times> 'v) list) list \<Rightarrow> ('t, 'v) obj list
    \<Rightarrow> ('k, 't, 'v) task list \<times> ('t, 'v) obj list \<Rightarrow> bool" where
  "run_inv shape rows h0 st \<longleftrightarrow>
     (case st of (ts, h) \<Rightarrow>
        length ts = length rows \<and> length h0 \<le> length h \<and> take (length h0) h = h0 \<and>
        (\<forall>i < length rows. task_inv shape h (rows ! i) (ts ! i) \<and>
             task_owned h (ts ! i) \<subseteq> {length h0..<length h}) \<and>
        (\<forall>i < length rows. \<forall>j < length rows.
             i \<noteq> j \<longrightarrow> task_owned h (ts ! i) \<inter> task_owned h (ts ! j) = {}))"

text \<open>The number of steps that a task still has to make.\<close>

fun steps_left :: "('k, 't, 'v) task \<Rightarrow> nat" where
  "steps_left (Start key grouped) = length grouped + 2"
| "steps_left (Running key a pending) = length pending + 1"
| "steps_left (Done key a) = 0"
| "steps_left (Failed e) = 0"

text \<open>
  Two functions used to state what a row holds: the values that a grouped row carries
  under one tag, in the order of the row, and the values that one source carries under
  one key, in the order of the source.
\<close>

definition slot :: "'t tag \<Rightarrow> ('t tag \<times> 'v) list \<Rightarrow> 'v list" where
  "slot tag grouped = map snd (filter (\<lambda>e. fst e = tag) grouped)"

definition source_values :: "'k \<Rightarrow> ('p, 'k \<times> 'v) pcoll \<Rightarrow> 'v list" where
  "source_values k c = map snd (filter (\<lambda>kv. fst kv = k) (elements c))"

text \<open>
  The elements of the flattened collection that a successful construction gives: every
  element of every source, paired with the tag of the source.
\<close>

definition tagged_elements :: "('t tag \<times> ('p, 'k \<times> 'v) pcoll) list \<Rightarrow> ('k \<times> ('t tag \<times> 'v)) list" where
  "tagged_elements pcolls =
     concat (map (\<lambda>tc. map (\<lambda>kv. (fst kv, (fst tc, snd kv))) (elements (snd tc))) pcolls)"

text \<open>
  Modelled from the spec: the order inside a grouped row, as far as the spec fixes it for
  \<^verbatim>\<open>GroupByKey\<close> (spec 8 and 9: intra-source order preserved, insertion order from that
  one source; cross-source order unspecified). A grouper keeps the order of every source
  when, in every row, the values that carry one tag stand in the order of the input.
\<close>

definition keeps_source_order :: "(('k \<times> ('t tag \<times> 'v)) list \<Rightarrow> ('k \<times> ('t tag \<times> 'v) list) list) \<Rightarrow> bool" where
  "keeps_source_order gbk \<longleftrightarrow>
     (\<forall>pcoll. \<forall>row \<in> set (gbk pcoll). \<forall>tag.
        slot tag (snd row) = slot tag (map snd (filter (\<lambda>kv. fst kv = fst row) pcoll)))"

section \<open>Auxiliary facts\<close>

lemma GroupByKey_ordered_ok: "is_GroupByKey GroupByKey_ordered"
  by (auto simp: is_GroupByKey_def GroupByKey_rel_def GroupByKey_ordered_def comp_def)

lemma merge_loop_dict:
  "fst ` set grouped \<subseteq> dom d \<Longrightarrow>
   merge_loop (DictValue d) grouped =
     Inr (DictValue (\<lambda>tag. map_option (\<lambda>vs. vs @ map snd (filter (\<lambda>e. fst e = tag) grouped)) (d tag)))"
proof (induction grouped arbitrary: d)
  case Nil
  have "(\<lambda>tag. map_option (\<lambda>vs. vs) (d tag)) = d"
    by (simp add: fun_eq_iff option.map_ident)
  then show ?case by simp
next
  case (Cons e grouped)
  obtain tag v where e: "e = (tag, v)" by (cases e)
  from Cons.prems e obtain vs where vs: "d tag = Some vs" by auto
  let ?d' = "d(tag \<mapsto> vs @ [v])"
  have sub: "fst ` set grouped \<subseteq> dom ?d'" using Cons.prems by auto
  have eq: "(\<lambda>t. map_option (\<lambda>vs. vs @ map snd (filter (\<lambda>e. fst e = t) grouped)) (?d' t))
      = (\<lambda>t. map_option (\<lambda>vs. vs @ map snd (filter (\<lambda>e. fst e = t) (e # grouped))) (d t))"
    using vs e by (auto simp: fun_eq_iff)
  have "merge_loop (DictValue d) (e # grouped) = merge_loop (DictValue ?d') grouped"
    using vs e by simp
  also note Cons.IH [OF sub]
  also note eq
  finally show ?case .
qed

lemma merge_loop_tuple:
  "\<forall>e \<in> set grouped. \<exists>i < length t. fst e = Index (int i) \<Longrightarrow>
   merge_loop (TupleValue t) grouped =
     Inr (TupleValue (map (\<lambda>i. t ! i @ map snd (filter (\<lambda>e. fst e = Index (int i)) grouped))
                        [0..<length t]))"
proof (induction grouped arbitrary: t)
  case Nil
  show ?case by (simp add: map_nth)
next
  case (Cons e grouped)
  obtain tag v where e: "e = (tag, v)" by (cases e)
  from Cons.prems e obtain i where i: "i < length t" "tag = Index (int i)" by auto
  let ?t' = "t[i := t ! i @ [v]]"
  have step: "getitem_append (TupleValue t) tag v = Inr (TupleValue ?t')"
    using i by simp
  have pre: "\<forall>e \<in> set grouped. \<exists>i < length ?t'. fst e = Index (int i)"
    using Cons.prems by simp
  have eq: "map (\<lambda>j. ?t' ! j @ map snd (filter (\<lambda>e. fst e = Index (int j)) grouped)) [0..<length ?t']
      = map (\<lambda>j. t ! j @ map snd (filter (\<lambda>e. fst e = Index (int j)) (e # grouped))) [0..<length t]"
    using i e by (auto simp: nth_list_update)
  have "merge_loop (TupleValue t) (e # grouped) = merge_loop (TupleValue ?t') grouped"
    using step e by simp
  also note Cons.IH [OF pre]
  also note eq
  finally show ?case .
qed

lemma collect_rows_map:
  "\<forall>x \<in> set xs. f x = Inr (g x) \<Longrightarrow> collect_rows (map f xs) = Inr (map g xs)"
  by (induction xs) simp_all

lemma pair_tag_with_value_eq:
  "pair_tag_with_value key_value tag = (fst key_value, (tag, snd key_value))"
  by (simp add: pair_tag_with_value_def split: prod.splits)

lemma set_tagged_elements:
  "set (tagged_elements pcolls) =
     {(k, (tag, v)) | k tag v c. (tag, c) \<in> set pcolls \<and> (k, v) \<in> set (elements c)}"
  by (force simp: tagged_elements_def)

lemma keys_tagged_elements:
  "fst ` set (tagged_elements pcolls) = (\<Union>tc \<in> set pcolls. fst ` set (elements (snd tc)))"
  by (force simp: set_tagged_elements)

lemma GroupByKey_rel_set:
  assumes "GroupByKey_rel xs rows" "(k, grouped) \<in> set rows"
  shows "set grouped = snd ` {kv \<in> set xs. fst kv = k}"
proof -
  from assms have "mset grouped = mset (map snd (filter (\<lambda>kv. fst kv = k) xs))"
    by (auto simp: GroupByKey_rel_def)
  then have "set grouped = set (map snd (filter (\<lambda>kv. fst kv = k) xs))"
    by (rule mset_eq_setD)
  then show ?thesis by auto
qed

lemma grouped_tags:
  assumes "GroupByKey_rel (tagged_elements pcolls) rows" "(k, grouped) \<in> set rows"
  shows "fst ` set grouped \<subseteq> fst ` set pcolls"
  using GroupByKey_rel_set [OF assms] by (force simp: set_tagged_elements)

lemma tagged_elements_Cons:
  "tagged_elements ((t, c) # pcolls) =
     map (\<lambda>key_value. pair_tag_with_value key_value t) (elements c) @ tagged_elements pcolls"
  by (simp add: tagged_elements_def pair_tag_with_value_eq)

lemma slot_tagged_elements:
  "slot tag (map snd (filter (\<lambda>x. fst x = k) (tagged_elements pcolls))) =
     concat (map (\<lambda>tc. if fst tc = tag then source_values k (snd tc) else []) pcolls)"
proof (induction pcolls)
  case Nil
  show ?case by (simp add: slot_def tagged_elements_def)
next
  case (Cons tc pcolls)
  obtain t c where tc: "tc = (t, c)" by (cases tc)
  have head: "slot tag (map snd (filter (\<lambda>x. fst x = k)
                 (map (\<lambda>key_value. pair_tag_with_value key_value t) (elements c)))) =
              (if t = tag then source_values k c else [])"
    by (auto simp: slot_def source_values_def pair_tag_with_value_eq filter_map comp_def)
  have "slot tag (map snd (filter (\<lambda>x. fst x = k) (tagged_elements (tc # pcolls)))) =
        slot tag (map snd (filter (\<lambda>x. fst x = k)
                 (map (\<lambda>key_value. pair_tag_with_value key_value t) (elements c))))
        @ slot tag (map snd (filter (\<lambda>x. fst x = k) (tagged_elements pcolls)))"
    by (simp add: tc tagged_elements_Cons slot_def)
  also have "\<dots> = (if t = tag then source_values k c else [])
        @ concat (map (\<lambda>tc. if fst tc = tag then source_values k (snd tc) else []) pcolls)"
    by (simp only: head Cons.IH)
  finally show ?case by (simp add: tc)
qed

lemma concat_select_distinct:
  "distinct (map fst pcolls) \<Longrightarrow> (tag, c) \<in> set pcolls \<Longrightarrow>
   concat (map (\<lambda>tc. if fst tc = tag then f (snd tc) else []) pcolls) = f c"
proof (induction pcolls)
  case Nil then show ?case by simp
next
  case (Cons tc pcolls)
  show ?case
  proof (cases "tc = (tag, c)")
    case True
    with Cons.prems have "\<forall>x \<in> set pcolls. fst x \<noteq> tag" by force
    then have "concat (map (\<lambda>tc. if fst tc = tag then f (snd tc) else []) pcolls) = []"
      by (induction pcolls) auto
    with True show ?thesis by simp
  next
    case False
    with Cons.prems have mem: "(tag, c) \<in> set pcolls" and d: "distinct (map fst pcolls)"
      by auto
    from mem have "tag \<in> fst ` set pcolls" by force
    with Cons.prems have "fst tc \<noteq> tag" by auto
    with Cons.IH [OF d mem] show ?thesis by simp
  qed
qed

lemma enumerate_pcolls_props:
  "map fst (enumerate_pcolls s :: ('t tag \<times> 'c) list) = map (\<lambda>i. Index (int i)) [0..<length s]"
  "map snd (enumerate_pcolls s :: ('t tag \<times> 'c) list) = s"
  "length (enumerate_pcolls s :: ('t tag \<times> 'c) list) = length s"
  "distinct (map fst (enumerate_pcolls s :: ('t tag \<times> 'c) list))"
  by (auto simp: enumerate_pcolls_def distinct_map inj_on_def)

lemma enumerate_pcolls_nth:
  "i < length s \<Longrightarrow> (Index (int i), s ! i) \<in> set (enumerate_pcolls s :: ('t tag \<times> 'c) list)"
  unfolding enumerate_pcolls_def in_set_zip
  by (rule exI [of _ i]) simp

lemma merge_dict_ok:
  fixes grouped :: "('t tag \<times> 'v) list"
  assumes "fst ` set grouped \<subseteq> set tags"
  shows "merge_tagged_vals_under_key (key, grouped) result_ctor_dict tags =
     Inr (key, DictValue (\<lambda>tag. if tag \<in> set tags then Some (slot tag grouped) else None))"
proof -
  let ?d = "map_of (map (\<lambda>tag. (tag, [])) tags) :: 't tag \<rightharpoonup> 'v list"
  have d: "?d = (\<lambda>tag. if tag \<in> set tags then Some [] else None)"
    by (induction tags) (auto simp: fun_eq_iff)
  have "dom ?d = set tags" by (auto simp: d split: if_splits)
  with assms have "fst ` set grouped \<subseteq> dom ?d" by simp
  from merge_loop_dict [OF this] show ?thesis
    by (simp add: merge_tagged_vals_under_key_def result_ctor_dict_def d slot_def fun_eq_iff
        cong: if_cong)
qed

lemma merge_tuple_ok:
  fixes grouped :: "('t tag \<times> 'v) list"
  assumes "\<forall>e \<in> set grouped. \<exists>i < n. fst e = Index (int i)"
  shows "merge_tagged_vals_under_key (key, grouped) result_ctor_tuple n =
     Inr (key, TupleValue (map (\<lambda>i. slot (Index (int i)) grouped) [0..<n]))"
proof -
  let ?t = "map (\<lambda>_. []) [0..<n] :: 'v list list"
  from assms have "\<forall>e \<in> set grouped. \<exists>i < length ?t. fst e = Index (int i)" by simp
  from merge_loop_tuple [OF this] show ?thesis
    by (simp add: merge_tagged_vals_under_key_def result_ctor_tuple_def slot_def)
qed


lemma pair_loop_result:
  "pair_loop str_of apply_step labels pcolls = Inr paired \<Longrightarrow>
   concat (map elements paired) = tagged_elements pcolls \<and>
   map pcoll_pipeline paired = map (\<lambda>tc. pcoll_pipeline (snd tc)) pcolls"
proof (induction pcolls arbitrary: labels paired)
  case Nil
  then show ?case by (simp add: tagged_elements_def)
next
  case (Cons tc pcolls)
  obtain t c where tc: "tc = (t, c)" by (cases tc)
  from Cons.prems obtain label rest
    where rest: "pair_loop str_of apply_step (labels @ [label]) pcolls = Inr rest"
      and paired: "paired = pcoll_Map (\<lambda>key_value. pair_tag_with_value key_value t) c # rest"
    by (auto simp: tc split: sum.splits option.splits)
  from Cons.IH [OF rest] show ?case
    by (simp add: paired tc tagged_elements_Cons pcoll_Map_def beam_Map_def)
qed

lemma Flatten_elements:
  "Flatten truthy p paired = Inr flat \<Longrightarrow> elements flat = concat (map elements paired)"
  by (auto simp: Flatten_def Let_def split: list.splits option.splits if_splits)

lemma construction_elements:
  assumes "construction chk truthy str_of apply_step self pcolls = Inr flat"
  shows "elements flat = tagged_elements pcolls"
    and "check_loop chk truthy self pcolls = None"
proof -
  from assms show chk: "check_loop chk truthy self pcolls = None"
    by (auto simp: construction_def split: option.splits)
  with assms obtain paired where p: "pair_loop str_of apply_step [] pcolls = Inr paired"
    and f: "Flatten truthy (pipeline self) paired = Inr flat"
    by (auto simp: construction_def split: sum.splits)
  from Flatten_elements [OF f] pair_loop_result [OF p]
  show "elements flat = tagged_elements pcolls" by simp
qed

lemma expand_pairs_dict:
  assumes gbk: "is_GroupByKey gbk"
    and con: "construction chk truthy str_of apply_step self d = Inr flat"
  shows "expand_pairs chk truthy str_of apply_step gbk self result_ctor_dict (map fst d) d =
     Inr (map (\<lambda>row. (fst row, DictValue (\<lambda>tag. if tag \<in> fst ` set d
                                            then Some (slot tag (snd row)) else None)))
            (gbk (tagged_elements d)))"
proof -
  have rel: "GroupByKey_rel (tagged_elements d) (gbk (tagged_elements d))"
    using gbk by (simp add: is_GroupByKey_def)
  have "\<forall>row \<in> set (gbk (tagged_elements d)).
          merge_tagged_vals_under_key row result_ctor_dict (map fst d) =
          Inr (fst row, DictValue (\<lambda>tag. if tag \<in> fst ` set d
                                          then Some (slot tag (snd row)) else None))"
  proof
    fix row assume row: "row \<in> set (gbk (tagged_elements d))"
    obtain k grouped where r: "row = (k, grouped)" by (cases row)
    from grouped_tags [OF rel] row r have "fst ` set grouped \<subseteq> set (map fst d)" by simp
    from merge_dict_ok [OF this, of k]
    show "merge_tagged_vals_under_key row result_ctor_dict (map fst d) =
          Inr (fst row, DictValue (\<lambda>tag. if tag \<in> fst ` set d
                                          then Some (slot tag (snd row)) else None))"
      unfolding r by (simp cong: if_cong)
  qed
  from collect_rows_map [OF this] con show ?thesis
    by (simp add: expand_pairs_def beam_Map_def construction_elements(1) [OF con])
qed

lemma expand_pairs_tuple:
  fixes s :: "('p, 'k \<times> 'v) pcoll list"
    and gbk :: "('k \<times> ('t tag \<times> 'v)) list \<Rightarrow> ('k \<times> ('t tag \<times> 'v) list) list"
  assumes gbk: "is_GroupByKey gbk"
    and con: "construction chk truthy str_of apply_step self
                (enumerate_pcolls s :: ('t tag \<times> ('p, 'k \<times> 'v) pcoll) list) = Inr flat"
  shows "expand_pairs chk truthy str_of apply_step gbk self result_ctor_tuple (length s)
           (enumerate_pcolls s) =
     Inr (map (\<lambda>row. (fst row, TupleValue (map (\<lambda>i. slot (Index (int i)) (snd row))
                                               [0..<length s])))
            (gbk (tagged_elements (enumerate_pcolls s))))"
proof -
  let ?ps = "enumerate_pcolls s :: ('t tag \<times> ('p, 'k \<times> 'v) pcoll) list"
  have rel: "GroupByKey_rel (tagged_elements ?ps) (gbk (tagged_elements ?ps))"
    using gbk by (simp add: is_GroupByKey_def)
  have "\<forall>row \<in> set (gbk (tagged_elements ?ps)).
          merge_tagged_vals_under_key row result_ctor_tuple (length s) =
          Inr (fst row, TupleValue (map (\<lambda>i. slot (Index (int i)) (snd row)) [0..<length s]))"
  proof
    fix row assume row: "row \<in> set (gbk (tagged_elements ?ps))"
    obtain k grouped where r: "row = (k, grouped)" by (cases row)
    from grouped_tags [OF rel] row r have "fst ` set grouped \<subseteq> set (map fst ?ps)" by simp
    then have "\<forall>e \<in> set grouped. \<exists>i < length s. fst e = Index (int i)"
      by (auto simp: enumerate_pcolls_props(1))
    from merge_tuple_ok [OF this, of k]
    show "merge_tagged_vals_under_key row result_ctor_tuple (length s) =
          Inr (fst row, TupleValue (map (\<lambda>i. slot (Index (int i)) (snd row)) [0..<length s]))"
      unfolding r by simp
  qed
  from collect_rows_map [OF this] con show ?thesis
    by (simp add: expand_pairs_def beam_Map_def construction_elements(1) [OF con])
qed

lemma expand_Inr_construction:
  "expand chk truthy str_of apply_step gbk self pcolls = Inr rows \<Longrightarrow>
   \<exists>flat. construction chk truthy str_of apply_step self (input_pairs pcolls) = Inr flat"
  by (cases pcolls)
     (auto simp: expand_def expand_pairs_def input_pairs_def Let_def split: sum.splits)

lemma expand_construction_fail:
  "construction chk truthy str_of apply_step self (input_pairs pcolls) = Inl e \<Longrightarrow>
   expand chk truthy str_of apply_step gbk self pcolls = Inl e"
  by (cases pcolls) (simp_all add: expand_def expand_pairs_def input_pairs_def Let_def)

lemma expand_rows:
  assumes gbk: "is_GroupByKey gbk"
    and con: "construction chk truthy str_of apply_step self (input_pairs pcolls) = Inr flat"
  shows "expand chk truthy str_of apply_step gbk self pcolls =
     Inr (map (\<lambda>row. (fst row,
                 (case pcolls of
                    DictInput d \<Rightarrow>
                      DictValue (\<lambda>tag. if tag \<in> fst ` set d then Some (slot tag (snd row))
                                        else None)
                  | SeqInput s \<Rightarrow>
                      TupleValue (map (\<lambda>i. slot (Index (int i)) (snd row)) [0..<length s]))))
            (gbk (tagged_elements (input_pairs pcolls))))"
proof (cases pcolls)
  case (DictInput d)
  with expand_pairs_dict [OF gbk, of chk truthy str_of apply_step self d flat] con show ?thesis
    by (simp add: expand_def input_pairs_def)
next
  case (SeqInput s)
  with expand_pairs_tuple [OF gbk, of chk truthy str_of apply_step self s flat] con show ?thesis
    by (simp add: expand_def input_pairs_def Let_def enumerate_pcolls_props(3))
qed

lemma grouper_keys:
  assumes "is_GroupByKey gbk"
  shows "distinct (map fst (gbk xs))" "set (map fst (gbk xs)) = fst ` set xs"
  using assms by (auto simp: is_GroupByKey_def GroupByKey_rel_def)

lemma slot_empty:
  assumes rel: "GroupByKey_rel (tagged_elements pcolls) rows" and row: "(k, grouped) \<in> set rows"
    and none: "\<forall>tc \<in> set pcolls. fst tc = tag \<longrightarrow> k \<notin> fst ` set (elements (snd tc))"
  shows "slot tag grouped = []"
proof -
  have "\<forall>e \<in> set grouped. fst e \<noteq> tag"
  proof
    fix e assume "e \<in> set grouped"
    with GroupByKey_rel_set [OF rel row]
    obtain kv where kv: "kv \<in> set (tagged_elements pcolls)" "fst kv = k" "e = snd kv" by auto
    then obtain c where "(fst e, c) \<in> set pcolls" "(k, snd e) \<in> set (elements c)"
      by (auto simp: set_tagged_elements)
    with none show "fst e \<noteq> tag" by force
  qed
  then show ?thesis by (simp add: slot_def filter_empty_conv)
qed

lemma slot_mset_cong:
  assumes "mset xs = mset ys"
  shows "mset (slot tag xs) = mset (slot tag ys)"
proof -
  have "mset (slot tag xs) = image_mset snd (filter_mset (\<lambda>e. fst e = tag) (mset xs))"
    by (simp add: slot_def)
  also have "\<dots> = image_mset snd (filter_mset (\<lambda>e. fst e = tag) (mset ys))"
    by (simp only: assms)
  also have "\<dots> = mset (slot tag ys)"
    by (simp add: slot_def)
  finally show ?thesis .
qed

lemma slot_mset:
  assumes rel: "GroupByKey_rel (tagged_elements pcolls) rows" and row: "(k, grouped) \<in> set rows"
    and d: "distinct (map fst pcolls)" and mem: "(tag, c) \<in> set pcolls"
  shows "mset (slot tag grouped) = mset (source_values k c)"
proof -
  let ?all = "map snd (filter (\<lambda>x. fst x = k) (tagged_elements pcolls))"
  from rel row have "mset grouped = mset ?all"
    by (auto simp: GroupByKey_rel_def)
  then have "mset (slot tag grouped) = mset (slot tag ?all)"
    by (rule slot_mset_cong)
  also have "slot tag ?all = source_values k c"
    by (simp only: slot_tagged_elements concat_select_distinct [OF d mem])
  finally show ?thesis .
qed

lemma in_enumerate_pcolls:
  "tc \<in> set (enumerate_pcolls s) \<longleftrightarrow> (\<exists>j < length s. tc = (Index (int j), s ! j))"
proof
  assume "tc \<in> set (enumerate_pcolls s)"
  then obtain j where "j < length s" "fst tc = Index (int j)" "snd tc = s ! j"
    unfolding enumerate_pcolls_def in_set_zip by auto
  then show "\<exists>j < length s. tc = (Index (int j), s ! j)"
    by (intro exI [of _ j]) (simp add: prod_eq_iff)
next
  assume "\<exists>j < length s. tc = (Index (int j), s ! j)"
  then show "tc \<in> set (enumerate_pcolls s)"
    by (auto simp: enumerate_pcolls_nth)
qed

lemma expand_row_origin:
  assumes gbk: "is_GroupByKey gbk"
    and ex: "expand chk truthy str_of apply_step gbk self pcolls = Inr rows"
    and kc: "(k, c) \<in> set rows"
  shows "\<exists>grouped. (k, grouped) \<in> set (gbk (tagged_elements (input_pairs pcolls))) \<and>
           c = (case pcolls of
                  DictInput d \<Rightarrow>
                    DictValue (\<lambda>tag. if tag \<in> fst ` set d then Some (slot tag grouped)
                                      else None)
                | SeqInput s \<Rightarrow>
                    TupleValue (map (\<lambda>i. slot (Index (int i)) grouped) [0..<length s]))"
proof -
  from expand_Inr_construction [OF ex] obtain flat
    where con: "construction chk truthy str_of apply_step self (input_pairs pcolls) = Inr flat"
    by blast
  from expand_rows [OF gbk con] ex kc
  obtain row where "row \<in> set (gbk (tagged_elements (input_pairs pcolls)))" "k = fst row"
    "c = (case pcolls of
                  DictInput d \<Rightarrow>
                    DictValue (\<lambda>tag. if tag \<in> fst ` set d then Some (slot tag (snd row))
                                      else None)
                | SeqInput s \<Rightarrow>
                    TupleValue (map (\<lambda>i. slot (Index (int i)) (snd row)) [0..<length s]))"
    by auto
  then show ?thesis by (intro exI [of _ "snd row"]) simp
qed


lemma check_loop_None_iff:
  "check_loop chk truthy self pcolls = None \<longleftrightarrow>
     (\<forall>tc \<in> set pcolls. chk (snd tc) = None \<and>
        (py_bool truthy (pipeline self) \<longrightarrow> pcoll_pipeline (snd tc) = pipeline self))"
proof (induction pcolls)
  case Nil
  show ?case by simp
next
  case (Cons tc pcolls)
  obtain t c where tc: "tc = (t, c)" by (cases tc)
  show ?case
  proof (cases "chk c")
    case None
    with Cons.IH show ?thesis by (auto simp: tc)
  next
    case (Some e)
    then show ?thesis by (auto simp: tc)
  qed
qed

lemma check_loop_Some:
  "check_loop chk truthy self pcolls = Some e \<Longrightarrow>
     (\<exists>tc \<in> set pcolls. chk (snd tc) = Some e) \<or>
     (e = AssertionError \<and> py_bool truthy (pipeline self) \<and>
      (\<exists>tc \<in> set pcolls. pcoll_pipeline (snd tc) \<noteq> pipeline self))"
proof (induction pcolls)
  case Nil
  then show ?case by simp
next
  case (Cons tc pcolls)
  obtain t c where tc: "tc = (t, c)" by (cases tc)
  show ?case
  proof (cases "chk c")
    case None
    with Cons show ?thesis by (auto simp: tc split: if_splits)
  next
    case (Some e')
    with Cons.prems show ?thesis by (auto simp: tc)
  qed
qed

lemma expand_check_fail:
  "check_loop chk truthy self (input_pairs pcolls) = Some e \<Longrightarrow>
   expand chk truthy str_of apply_step gbk self pcolls = Inl e"
  by (rule expand_construction_fail) (simp add: construction_def)

lemma GroupByKey_ordered_keeps_order: "keeps_source_order GroupByKey_ordered"
  by (auto simp: keeps_source_order_def GroupByKey_ordered_def)

lemma expand_succeeds:
  assumes "is_GroupByKey gbk"
    and "construction chk truthy str_of apply_step self (input_pairs pcolls) = Inr flat"
  shows "\<exists>rows. expand chk truthy str_of apply_step gbk self pcolls = Inr rows"
  using expand_rows [OF assms] by simp

subsection \<open>The exceptions of the construction\<close>

text \<open>
  With no input and no pipeline the transform cannot be applied; a dict key that is a
  tuple of two elements cannot be formatted into the step label; and inputs of different
  pipelines are refused by the validation of \<^verbatim>\<open>Flatten\<close> when no pipeline was given to
  the constructor and the check of the inputs made no comparison.
\<close>

lemma expand_no_inputs_no_pipeline:
  "pipeline self = None \<Longrightarrow>
   expand chk truthy str_of apply_step gbk self (SeqInput []) = Inl ValueError \<and>
   expand chk truthy str_of apply_step gbk self (DictInput []) = Inl ValueError"
  by (simp add: expand_def expand_pairs_def construction_def enumerate_pcolls_def Flatten_def)

lemma expand_tuple_tag:
  "chk c = None \<Longrightarrow> \<not> py_bool truthy (pipeline self) \<Longrightarrow>
   expand chk truthy str_of apply_step gbk self (DictInput [(TupleTag [x, y], c)])
     = Inl TypeError"
  by (simp add: expand_def expand_pairs_def construction_def)

lemma expand_mixed_pipelines:
  "chk c1 = None \<Longrightarrow> chk c2 = None \<Longrightarrow> \<not> py_bool truthy (pipeline self) \<Longrightarrow>
   apply_step [] (''pair_with_'' @ str_of (Index 0)) c1 = None \<Longrightarrow>
   apply_step [''pair_with_'' @ str_of (Index 0)] (''pair_with_'' @ str_of (Index 1)) c2 = None \<Longrightarrow>
   pcoll_pipeline c1 \<noteq> pcoll_pipeline c2 \<Longrightarrow>
   expand chk truthy str_of apply_step gbk self (SeqInput [c1, c2]) = Inl ValueError"
  by (simp add: expand_def expand_pairs_def construction_def enumerate_pcolls_def Flatten_def
      pcoll_Map_def Let_def upt_conv_Cons)

subsection \<open>The merge on a shared store\<close>

lemma new_lists_eq:
  "new_lists n h = ([length h..<length h + n], h @ replicate n (ListObj []))"
proof (induction n arbitrary: h)
  case 0 show ?case by simp
next
  case (Suc n)
  have "[length h..<length h + Suc n] = length h # [Suc (length h)..<Suc (length h) + n]"
    by (simp add: upt_conv_Cons)
  then show ?case
    by (simp add: Suc.IH new_obj_def replicate_app_Cons_same)
qed

lemma merge_loop_append:
  "merge_loop v (xs @ ys) =
     (case merge_loop v xs of Inl e \<Rightarrow> Inl e | Inr v' \<Rightarrow> merge_loop v' ys)"
  by (induction xs arbitrary: v) (auto split: sum.splits)

lemma heap_ctor_tuple_eq:
  "heap_ctor_tuple n h =
     (length h + n, h @ replicate n (ListObj []) @ [TupleObj [length h..<length h + n]])"
  by (simp add: heap_ctor_tuple_def new_lists_eq new_obj_def)

lemma heap_ctor_dict_eq:
  "heap_ctor_dict tags h =
     (length h + length tags,
      h @ replicate (length tags) (ListObj []) @
        [DictObj (map_of (rev (zip tags [length h..<length h + length tags])))])"
  by (simp add: heap_ctor_dict_def new_lists_eq new_obj_def)

lemma list_at_fresh:
  "length h \<le> l \<Longrightarrow> l < length h + n \<Longrightarrow>
   list_at (h @ replicate n (ListObj []) @ [x]) l = Some []"
proof -
  assume a: "length h \<le> l" "l < length h + n"
  then have "l - length h < n" by arith
  with a show ?thesis by (simp add: list_at_def nth_append)
qed

lemma zip_distinct_right:
  assumes "distinct as" "(t1, l) \<in> set (zip tags as)" "(t2, l) \<in> set (zip tags as)"
  shows "t1 = t2"
proof -
  from assms(2) obtain i where i: "i < length tags" "i < length as" "tags ! i = t1" "as ! i = l"
    by (auto simp: in_set_zip)
  from assms(3) obtain j where j: "j < length tags" "j < length as" "tags ! j = t2" "as ! j = l"
    by (auto simp: in_set_zip)
  from i(4) j(4) have "as ! i = as ! j" by simp
  with assms(1) i(2) j(2) have "i = j" by (simp add: nth_eq_iff_index_eq)
  with i j show ?thesis by simp
qed

lemma map_of_rev_zip:
  assumes "length tags = length as"
  shows "dom (map_of (rev (zip tags as))) = set tags"
    and "map_of (rev (zip tags as)) t = Some l \<Longrightarrow> (t, l) \<in> set (zip tags as)"
proof -
  show "dom (map_of (rev (zip tags as))) = set tags"
    using assms by (simp add: dom_map_of_conv_image_fst flip: set_map)
  show "map_of (rev (zip tags as)) t = Some l \<Longrightarrow> (t, l) \<in> set (zip tags as)"
    by (drule map_of_SomeD) simp
qed

lemma result_ctor_dict_eq:
  "result_ctor_dict tags = DictValue (\<lambda>tag. if tag \<in> set tags then Some [] else None)"
proof -
  have "map_of (map (\<lambda>tag. (tag, [])) tags) = (\<lambda>tag. if tag \<in> set tags then Some [] else None)"
    by (induction tags) (auto simp: fun_eq_iff)
  then show ?thesis by (simp add: result_ctor_dict_def)
qed

lemma heap_ctor_dict_spec:
  fixes h :: "('t, 'v) obj list"
  assumes "heap_ctor_dict tags h = (a, h')"
  shows "take (length h) h' = h" "length h \<le> a" "a < length h'" "container_ok h' a"
    "owned h' a \<subseteq> {length h..<length h'}"
    "read_value h' a = Some (result_ctor_dict tags)"
proof -
  let ?n = "length tags"
  let ?as = "[length h..<length h + ?n]"
  let ?d = "map_of (rev (zip tags ?as))"
  from assms have a: "a = length h + ?n"
    and h': "h' = h @ replicate ?n (ListObj []) @ [DictObj ?d]"
    unfolding heap_ctor_dict_eq by blast+
  have len: "length tags = length ?as" by simp
  have at: "h' ! a = DictObj ?d" by (simp add: a h' nth_append)
  have ran: "\<And>t l. ?d t = Some l \<Longrightarrow> length h \<le> l \<and> l < length h + ?n"
  proof -
    fix t l assume "?d t = Some l"
    from map_of_rev_zip(2) [OF len this] have "l \<in> set ?as" by (rule set_zip_rightD)
    then show "length h \<le> l \<and> l < length h + ?n" by simp
  qed
  have cell: "\<And>t l. ?d t = Some l \<Longrightarrow> list_at h' l = Some []"
    using ran by (simp add: h' list_at_fresh)
  have inj: "inj_on ?d (dom ?d)"
  proof (rule inj_onI)
    fix t1 t2 assume "t1 \<in> dom ?d" "t2 \<in> dom ?d" "?d t1 = ?d t2"
    then obtain l where "?d t1 = Some l" "?d t2 = Some l" by auto
    then have "(t1, l) \<in> set (zip tags ?as)" "(t2, l) \<in> set (zip tags ?as)"
      using map_of_rev_zip(2) [OF len] by blast+
    then show "t1 = t2" using zip_distinct_right [of ?as] by fastforce
  qed
  show "take (length h) h' = h" by (simp add: h')
  show "length h \<le> a" by (simp add: a)
  show alt: "a < length h'" by (simp add: a h')
  show "container_ok h' a"
    using inj cell by (auto simp: container_ok_def at alt ran_def)
  have "owned h' a = insert a (ran ?d)" by (simp add: owned_def at)
  moreover have "length h' = Suc (length h + ?n)" by (simp add: h')
  moreover have "\<forall>l \<in> ran ?d. length h \<le> l \<and> l < Suc (length h + ?n)"
    using ran by (fastforce simp: ran_def)
  ultimately show "owned h' a \<subseteq> {length h..<length h'}"
    by (auto simp: a)
  have "(\<lambda>tag. Option.bind (?d tag) (list_at h')) =
        (\<lambda>tag. if tag \<in> set tags then Some [] else None)"
  proof
    fix tag
    show "Option.bind (?d tag) (list_at h') = (if tag \<in> set tags then Some [] else None)"
    proof (cases "?d tag")
      case None
      then have "tag \<notin> dom ?d" by auto
      then have "tag \<notin> set tags" using map_of_rev_zip(1) [OF len] by blast
      with None show ?thesis by simp
    next
      case (Some l)
      then have "tag \<in> dom ?d" by auto
      then have "tag \<in> set tags" using map_of_rev_zip(1) [OF len] by blast
      with Some cell [OF Some] show ?thesis by simp
    qed
  qed
  then show "read_value h' a = Some (result_ctor_dict tags)"
    by (simp add: read_value_def alt at result_ctor_dict_eq)
qed

lemma heap_ctor_tuple_spec:
  fixes h :: "('t, 'v) obj list"
  assumes "heap_ctor_tuple n h = (a, h')"
  shows "take (length h) h' = h" "length h \<le> a" "a < length h'" "container_ok h' a"
    "owned h' a \<subseteq> {length h..<length h'}"
    "read_value h' a = Some (result_ctor_tuple n)"
proof -
  let ?as = "[length h..<length h + n]"
  from assms have a: "a = length h + n"
    and h': "h' = h @ replicate n (ListObj []) @ [TupleObj ?as]"
    unfolding heap_ctor_tuple_eq by blast+
  have at: "h' ! a = TupleObj ?as" by (simp add: a h' nth_append)
  have cell: "\<And>l. l \<in> set ?as \<Longrightarrow> list_at h' l = Some []"
    by (simp add: h' list_at_fresh)
  show "take (length h) h' = h" by (simp add: h')
  show "length h \<le> a" by (simp add: a)
  show alt: "a < length h'" by (simp add: a h')
  show "container_ok h' a"
    using cell by (simp add: container_ok_def at alt)
  have "owned h' a = insert a (set ?as)" by (simp add: owned_def at)
  moreover have "length h' = Suc (length h + n)" by (simp add: h')
  ultimately show "owned h' a \<subseteq> {length h..<length h'}"
    by (auto simp: a)
  have "map (\<lambda>l. case list_at h' l of Some vs \<Rightarrow> vs | None \<Rightarrow> []) ?as = map (\<lambda>_. []) [0..<n]"
    using cell by (simp add: list_eq_iff_nth_eq)
  then show "read_value h' a = Some (result_ctor_tuple n)"
    by (simp add: read_value_def alt at result_ctor_tuple_def)
qed

lemma heap_result_ctor_spec:
  fixes h :: "('t, 'v) obj list"
  assumes "heap_result_ctor shape h = (a, h')"
  shows "take (length h) h' = h" "length h \<le> a" "a < length h'" "container_ok h' a"
    "owned h' a \<subseteq> {length h..<length h'}"
    "read_value h' a = Some (pure_result_ctor shape)"
  using assms heap_ctor_dict_spec [of _ h a h'] heap_ctor_tuple_spec [of _ h a h']
  by (cases shape; simp)+

lemma list_at_update:
  "l < length h \<Longrightarrow>
   list_at (h[l := ListObj x]) l' = (if l' = l then Some x else list_at h l')"
  by (simp add: list_at_def)

lemma list_at_SomeD:
  "list_at h l = Some vs \<Longrightarrow> l < length h \<and> h ! l = ListObj vs"
  by (auto simp: list_at_def split: if_splits obj.splits)

lemma list_append_ok:
  "list_at h l = Some vs \<Longrightarrow> list_append l value h = Inr (h[l := ListObj (vs @ [value])])"
  by (auto simp: list_append_def dest: list_at_SomeD)

lemma container_not_list:
  "container_ok h b \<Longrightarrow> list_at h l = Some vs \<Longrightarrow> b \<noteq> l"
  by (auto simp: container_ok_def dest!: list_at_SomeD)

lemma update_keeps_container:
  assumes l: "list_at h l = Some vs" and ok: "container_ok h b"
  shows "(h[l := ListObj x]) ! b = h ! b"
    and "container_ok (h[l := ListObj x]) b"
    and "owned (h[l := ListObj x]) b = owned h b"
proof -
  from l have ll: "l < length h" by (auto dest: list_at_SomeD)
  from container_not_list [OF ok l] have ne: "b \<noteq> l" .
  then show same: "(h[l := ListObj x]) ! b = h ! b" by simp
  have "\<And>l'. list_at h l' \<noteq> None \<Longrightarrow> list_at (h[l := ListObj x]) l' \<noteq> None"
    by (simp add: list_at_update [OF ll])
  with ok show "container_ok (h[l := ListObj x]) b"
    by (auto simp: container_ok_def same split: obj.splits)
  show "owned (h[l := ListObj x]) b = owned h b"
    by (simp add: owned_def same)
qed

lemma update_frame:
  assumes l: "list_at h l = Some vs" and ok: "container_ok h b" and out: "l \<notin> owned h b"
  shows "read_value (h[l := ListObj x]) b = read_value h b"
proof -
  from l have ll: "l < length h" by (auto dest: list_at_SomeD)
  note same = update_keeps_container(1) [OF l ok]
  from ok have bl: "b < length h" by (simp add: container_ok_def)
  show ?thesis
  proof (cases "h ! b")
    case (ListObj ws)
    with bl same show ?thesis by (simp add: read_value_def)
  next
    case (DictObj d)
    with out have no: "l \<notin> ran d" by (simp add: owned_def)
    have "(\<lambda>tag. Option.bind (d tag) (list_at (h[l := ListObj x])))
        = (\<lambda>tag. Option.bind (d tag) (list_at h))"
    proof
      fix tag
      show "Option.bind (d tag) (list_at (h[l := ListObj x])) = Option.bind (d tag) (list_at h)"
      proof (cases "d tag")
        case None then show ?thesis by simp
      next
        case (Some l')
        with no have "l' \<noteq> l" by (auto simp: ran_def)
        with Some show ?thesis by (simp add: list_at_update [OF ll])
      qed
    qed
    with bl same DictObj show ?thesis by (simp add: read_value_def)
  next
    case (TupleObj as)
    with out have no: "l \<notin> set as" by (simp add: owned_def)
    have "map (\<lambda>l'. case list_at (h[l := ListObj x]) l' of Some vs \<Rightarrow> vs | None \<Rightarrow> []) as
        = map (\<lambda>l'. case list_at h l' of Some vs \<Rightarrow> vs | None \<Rightarrow> []) as"
      using no by (auto simp: list_at_update [OF ll])
    with bl same TupleObj show ?thesis by (simp add: read_value_def)
  qed
qed

lemma append_frame:
  assumes ok: "container_ok h b"
  shows "container_ok (h @ ext) b" "owned (h @ ext) b = owned h b"
    "read_value (h @ ext) b = read_value h b"
proof -
  from ok have bl: "b < length h" by (simp add: container_ok_def)
  then have same: "(h @ ext) ! b = h ! b" by (simp add: nth_append)
  have lat: "\<And>l. list_at h l \<noteq> None \<Longrightarrow> list_at (h @ ext) l = list_at h l"
    by (auto simp: list_at_def nth_append split: if_splits)
  from ok lat show "container_ok (h @ ext) b"
    by (auto simp: container_ok_def same split: obj.splits)
  show "owned (h @ ext) b = owned h b" by (simp add: owned_def same)
  show "read_value (h @ ext) b = read_value h b"
  proof (cases "h ! b")
    case (ListObj ws)
    with ok show ?thesis by (simp add: container_ok_def)
  next
    case (DictObj d)
    have "(\<lambda>tag. Option.bind (d tag) (list_at (h @ ext))) = (\<lambda>tag. Option.bind (d tag) (list_at h))"
    proof
      fix tag
      show "Option.bind (d tag) (list_at (h @ ext)) = Option.bind (d tag) (list_at h)"
      proof (cases "d tag")
        case None then show ?thesis by simp
      next
        case (Some l')
        then have "l' \<in> ran d" by (auto simp: ran_def)
        with ok DictObj have "list_at h l' \<noteq> None" by (simp add: container_ok_def)
        with Some lat show ?thesis by simp
      qed
    qed
    with bl same DictObj show ?thesis by (simp add: read_value_def)
  next
    case (TupleObj as)
    with ok have "\<forall>l \<in> set as. list_at h l \<noteq> None" by (simp add: container_ok_def)
    with lat have "map (\<lambda>l'. case list_at (h @ ext) l' of Some vs \<Rightarrow> vs | None \<Rightarrow> []) as
        = map (\<lambda>l'. case list_at h l' of Some vs \<Rightarrow> vs | None \<Rightarrow> []) as"
      by simp
    with bl same TupleObj show ?thesis by (simp add: read_value_def)
  qed
qed

lemma heap_getitem_append_sim:
  assumes ok: "container_ok h a" and rd: "read_value h a = Some v"
  shows "case getitem_append v tag value of
           Inl e \<Rightarrow> heap_getitem_append a tag value h = Inl e
         | Inr v' \<Rightarrow>
             (\<exists>l vs. l \<in> owned h a \<and> list_at h l = Some vs \<and>
                heap_getitem_append a tag value h = Inr (h[l := ListObj (vs @ [value])]) \<and>
                read_value (h[l := ListObj (vs @ [value])]) a = Some v')"
proof -
  from ok have al: "a < length h" by (simp add: container_ok_def)
  show ?thesis
  proof (cases "h ! a")
    case (ListObj ws)
    with ok show ?thesis by (simp add: container_ok_def)
  next
    case (DictObj d)
    with ok have inj: "inj_on d (dom d)" and cells: "\<forall>l \<in> ran d. list_at h l \<noteq> None"
      by (simp_all add: container_ok_def)
    from rd al DictObj have v: "v = DictValue (\<lambda>t. Option.bind (d t) (list_at h))"
      by (simp add: read_value_def)
    show ?thesis
    proof (cases "d tag")
      case None
      with v al DictObj show ?thesis by (simp add: heap_getitem_append_def)
    next
      case (Some l)
      then have "l \<in> ran d" by (auto simp: ran_def)
      with cells obtain vs where vs: "list_at h l = Some vs" by auto
      then have ll: "l < length h" by (auto dest: list_at_SomeD)
      let ?h' = "h[l := ListObj (vs @ [value])]"
      have step: "heap_getitem_append a tag value h = Inr ?h'"
        using al DictObj Some by (simp add: heap_getitem_append_def list_append_ok [OF vs])
      have pure: "getitem_append v tag value =
          Inr (DictValue ((\<lambda>t. Option.bind (d t) (list_at h))(tag \<mapsto> vs @ [value])))"
        using Some vs by (simp add: v)
      have "(\<lambda>t. Option.bind (d t) (list_at ?h')) =
            (\<lambda>t. Option.bind (d t) (list_at h))(tag \<mapsto> vs @ [value])"
      proof
        fix t
        show "Option.bind (d t) (list_at ?h') =
              ((\<lambda>t. Option.bind (d t) (list_at h))(tag \<mapsto> vs @ [value])) t"
        proof (cases "d t")
          case None
          with Some have "t \<noteq> tag" by auto
          with None show ?thesis by simp
        next
          case St: (Some l')
          show ?thesis
          proof (cases "t = tag")
            case True
            with Some show ?thesis by (simp add: list_at_update [OF ll])
          next
            case False
            have "l' \<noteq> l"
            proof
              assume "l' = l"
              with St Some have "d t = d tag" "t \<in> dom d" "tag \<in> dom d" by auto
              with inj have "t = tag" by (auto dest: inj_onD)
              with False show False by simp
            qed
            with St False show ?thesis by (simp add: list_at_update [OF ll])
          qed
        qed
      qed
      moreover have "?h' ! a = h ! a" by (rule update_keeps_container(1) [OF vs ok])
      ultimately have "read_value ?h' a =
          Some (DictValue ((\<lambda>t. Option.bind (d t) (list_at h))(tag \<mapsto> vs @ [value])))"
        using al DictObj by (simp add: read_value_def)
      moreover have "l \<in> owned h a" using \<open>l \<in> ran d\<close> DictObj by (simp add: owned_def)
      ultimately show ?thesis using step vs by (simp add: pure) blast
    qed
  next
    case (TupleObj as)
    with ok have dist: "distinct as" and cells: "\<forall>l \<in> set as. list_at h l \<noteq> None"
      by (simp_all add: container_ok_def)
    let ?f = "\<lambda>h l. case list_at h l of Some vs \<Rightarrow> vs | None \<Rightarrow> []"
    from rd al TupleObj have v: "v = TupleValue (map (?f h) as)"
      by (simp add: read_value_def)
    show ?thesis
    proof (cases tag)
      case (Name x)
      with v al TupleObj show ?thesis by (simp add: heap_getitem_append_def)
    next
      case (TupleTag xs)
      with v al TupleObj show ?thesis by (simp add: heap_getitem_append_def)
    next
      case (Index i)
      define j where "j = (if i < 0 then int (length as) + i else i)"
      have pure_eq: "getitem_append v tag value =
          (if 0 \<le> j \<and> j < int (length as)
           then Inr (TupleValue ((map (?f h) as)[nat j := map (?f h) as ! nat j @ [value]]))
           else Inl IndexError)"
        by (simp add: v Index Let_def j_def)
      have heap_eq: "heap_getitem_append a tag value h =
          (if 0 \<le> j \<and> j < int (length as) then list_append (as ! nat j) value h
           else Inl IndexError)"
        using al TupleObj by (simp add: heap_getitem_append_def Index Let_def j_def)
      show ?thesis
      proof (cases "0 \<le> j \<and> j < int (length as)")
        case False
        then have "getitem_append v tag value = Inl IndexError"
          and "heap_getitem_append a tag value h = Inl IndexError"
          unfolding pure_eq heap_eq by (rule if_not_P)+
        then show ?thesis by simp
      next
        case True
        define k where "k = nat j"
        define l where "l = as ! k"
        from True have kl: "k < length as" by (auto simp: k_def)
        then have lin: "l \<in> set as" by (simp add: l_def)
        with cells obtain vs where vs: "list_at h l = Some vs" by auto
        then have ll: "l < length h" by (auto dest: list_at_SomeD)
        let ?h' = "h[l := ListObj (vs @ [value])]"
        have step: "heap_getitem_append a tag value h = Inr ?h'"
          using True by (simp add: heap_eq list_append_ok [OF vs] flip: k_def l_def)
        have "map (?f h) as ! k = vs" using kl vs by (simp flip: l_def)
        then have pure: "getitem_append v tag value =
            Inr (TupleValue ((map (?f h) as)[k := vs @ [value]]))"
          using True by (simp add: pure_eq flip: k_def)
        have "map (?f ?h') as = (map (?f h) as)[k := vs @ [value]]"
        proof (rule nth_equalityI)
          show "length (map (?f ?h') as) = length ((map (?f h) as)[k := vs @ [value]])"
            by simp
        next
          fix m assume "m < length (map (?f ?h') as)"
          then have m: "m < length as" by simp
          show "map (?f ?h') as ! m = (map (?f h) as)[k := vs @ [value]] ! m"
          proof (cases "m = k")
            case True
            with m show ?thesis by (simp add: list_at_update [OF ll] flip: l_def)
          next
            case False
            with dist m kl have "as ! m \<noteq> l" by (simp add: nth_eq_iff_index_eq l_def)
            with m False show ?thesis by (simp add: list_at_update [OF ll])
          qed
        qed
        moreover have "?h' ! a = h ! a" by (rule update_keeps_container(1) [OF vs ok])
        ultimately have "read_value ?h' a =
            Some (TupleValue ((map (?f h) as)[k := vs @ [value]]))"
          using al TupleObj by (simp add: read_value_def)
        moreover have "l \<in> owned h a" using lin TupleObj by (simp add: owned_def)
        ultimately show ?thesis using step vs by (simp add: pure) blast
      qed
    qed
  qed
qed

lemma task_frame_update:
  assumes l: "list_at h l = Some vs" and out: "l \<notin> task_owned h t"
    and inv: "task_inv shape h row t"
  shows "task_inv shape (h[l := ListObj x]) row t"
    and "task_owned (h[l := ListObj x]) t = task_owned h t"
proof -
  show "task_inv shape (h[l := ListObj x]) row t"
    using inv out update_keeps_container(2) [OF l] update_frame [OF l]
    by (cases t) auto
  show "task_owned (h[l := ListObj x]) t = task_owned h t"
    using inv update_keeps_container(3) [OF l]
    by (cases t) auto
qed

lemma task_frame_append:
  assumes inv: "task_inv shape h row t"
  shows "task_inv shape (h @ ext) row t"
    and "task_owned (h @ ext) t = task_owned h t"
proof -
  show "task_inv shape (h @ ext) row t"
    using inv append_frame(1,3) [of h _ ext]
    by (cases t) auto
  show "task_owned (h @ ext) t = task_owned h t"
    using inv append_frame(2) [of h _ ext]
    by (cases t) auto
qed

lemma take_eq_append:
  "take (length h) h' = h \<Longrightarrow> h' = h @ drop (length h) h'"
  by (metis append_take_drop_id)

lemma task_step_effect:
  fixes h :: "('t, 'v) obj list" and t :: "('k, 't, 'v) task"
  assumes inv: "task_inv shape h row t"
    and step: "task_step heap_result_ctor shape t h = (t', h')"
  shows "task_inv shape h' row t'"
    and "task_owned h' t' \<subseteq> task_owned h t \<union> {length h..<length h'}"
    and "length h \<le> length h'"
    and "\<And>b. b < length h \<Longrightarrow> b \<notin> task_owned h t \<Longrightarrow> h' ! b = h ! b"
    and "\<And>(t2 :: ('k, 't, 'v) task) row2. task_inv shape h row2 t2 \<Longrightarrow>
           task_owned h t2 \<inter> task_owned h t = {} \<Longrightarrow>
           task_inv shape h' row2 t2 \<and> task_owned h' t2 = task_owned h t2"
proof -
  have "task_inv shape h' row t' \<and>
        task_owned h' t' \<subseteq> task_owned h t \<union> {length h..<length h'} \<and>
        length h \<le> length h' \<and>
        (\<forall>b. b < length h \<longrightarrow> b \<notin> task_owned h t \<longrightarrow> h' ! b = h ! b) \<and>
        (\<forall>(t2 :: ('k, 't, 'v) task) row2. task_inv shape h row2 t2 \<longrightarrow>
           task_owned h t2 \<inter> task_owned h t = {} \<longrightarrow>
           task_inv shape h' row2 t2 \<and> task_owned h' t2 = task_owned h t2)"
  proof (cases t)
    case (Start key grouped)
    obtain a where ctor: "heap_result_ctor shape h = (a, h')" and t': "t' = Running key a grouped"
      using step Start by (auto split: prod.splits)
    note spec = heap_result_ctor_spec [OF ctor]
    from spec(1) have ext: "h' = h @ drop (length h) h'" by (rule take_eq_append)
    from spec(2,3) have len: "length h \<le> length h'" by simp
    have 1: "task_inv shape h' row t'"
      using inv Start spec(4,6) by (auto simp: t')
    have 2: "task_owned h' t' \<subseteq> task_owned h t \<union> {length h..<length h'}"
      using spec(5) by (simp add: t' Start)
    have 4: "\<forall>b. b < length h \<longrightarrow> b \<notin> task_owned h t \<longrightarrow> h' ! b = h ! b"
      using spec(1) by (metis nth_take)
    have 5: "\<forall>(t2 :: ('k, 't, 'v) task) row2. task_inv shape h row2 t2 \<longrightarrow>
           task_owned h t2 \<inter> task_owned h t = {} \<longrightarrow>
           task_inv shape h' row2 t2 \<and> task_owned h' t2 = task_owned h t2"
      using task_frame_append [of shape h _ _ "drop (length h) h'"] ext by metis
    from 1 2 len 4 5 show ?thesis by blast
  next
    case (Done key a)
    with step have "t' = t" "h' = h" by auto
    with inv show ?thesis by auto
  next
    case (Failed e)
    with step have "t' = t" "h' = h" by auto
    with inv show ?thesis by auto
  next
    case (Running key a pending)
    from inv Running obtain consumed v where key: "key = fst row" and ok: "container_ok h a"
      and row: "snd row = consumed @ pending"
      and m: "merge_loop (pure_result_ctor shape) consumed = Inr v"
      and rd: "read_value h a = Some v"
      by auto
    show ?thesis
    proof (cases pending)
      case Nil
      with step Running have "t' = Done key a" "h' = h" by auto
      with key ok row m rd Nil Running show ?thesis by auto
    next
      case (Cons e grouped)
      obtain tag val where e: "e = (tag, val)" by (cases e)
      have whole: "merge_loop (pure_result_ctor shape) (snd row) =
          (case getitem_append v tag val of Inl e \<Rightarrow> Inl e | Inr v' \<Rightarrow> merge_loop v' grouped)"
        by (simp add: row Cons e merge_loop_append m)
      note sim = heap_getitem_append_sim [OF ok rd, of tag val]
      show ?thesis
      proof (cases "getitem_append v tag val")
        case (Inl err)
        with sim have "heap_getitem_append a tag val h = Inl err" by simp
        with step Running Cons e have "t' = Failed err" "h' = h" by auto
        with whole Inl show ?thesis by auto
      next
        case (Inr v')
        with sim obtain l vs where l: "l \<in> owned h a" "list_at h l = Some vs"
          and hstep: "heap_getitem_append a tag val h = Inr (h[l := ListObj (vs @ [val])])"
          and rd': "read_value (h[l := ListObj (vs @ [val])]) a = Some v'"
          by auto
        let ?h' = "h[l := ListObj (vs @ [val])]"
        from step Running Cons e hstep have t': "t' = Running key a grouped" and h': "h' = ?h'"
          by auto
        have m': "merge_loop (pure_result_ctor shape) (consumed @ [(tag, val)]) = Inr v'"
          by (simp add: merge_loop_append m Inr)
        have row': "snd row = (consumed @ [(tag, val)]) @ grouped"
          by (simp add: row Cons e)
        have 1: "task_inv shape h' row t'"
          using key update_keeps_container(2) [OF l(2) ok] row' m' rd'
          unfolding t' h' task_inv.simps by blast
        have 2: "task_owned h' t' \<subseteq> task_owned h t \<union> {length h..<length h'}"
          using update_keeps_container(3) [OF l(2) ok] by (simp add: t' h' Running)
        have 3: "length h \<le> length h'" by (simp add: h')
        have 4: "\<forall>b. b < length h \<longrightarrow> b \<notin> task_owned h t \<longrightarrow> h' ! b = h ! b"
        proof (intro allI impI)
          fix b assume "b < length h" "b \<notin> task_owned h t"
          with l(1) have "b \<noteq> l" by (auto simp: Running)
          then show "h' ! b = h ! b" by (simp add: h')
        qed
        have 5: "\<forall>(t2 :: ('k, 't, 'v) task) row2. task_inv shape h row2 t2 \<longrightarrow>
           task_owned h t2 \<inter> task_owned h t = {} \<longrightarrow>
           task_inv shape h' row2 t2 \<and> task_owned h' t2 = task_owned h t2"
        proof (intro allI impI)
          fix t2 :: "('k, 't, 'v) task" and row2
          assume i2: "task_inv shape h row2 t2" and dj: "task_owned h t2 \<inter> task_owned h t = {}"
          from dj l(1) have "l \<notin> task_owned h t2" by (auto simp: Running)
          from task_frame_update [OF l(2) this i2]
          show "task_inv shape h' row2 t2 \<and> task_owned h' t2 = task_owned h t2"
            by (simp add: h')
        qed
        from 1 2 3 4 5 show ?thesis by blast
      qed
    qed
  qed
  then show "task_inv shape h' row t'"
    and "task_owned h' t' \<subseteq> task_owned h t \<union> {length h..<length h'}"
    and "length h \<le> length h'"
    and "\<And>b. b < length h \<Longrightarrow> b \<notin> task_owned h t \<Longrightarrow> h' ! b = h ! b"
    and "\<And>(t2 :: ('k, 't, 'v) task) row2. task_inv shape h row2 t2 \<Longrightarrow>
           task_owned h t2 \<inter> task_owned h t = {} \<Longrightarrow>
           task_inv shape h' row2 t2 \<and> task_owned h' t2 = task_owned h t2"
    by blast+
qed

lemma run_inv_start: "run_inv shape rows h0 (start_tasks rows, h0)"
  by (simp add: run_inv_def start_tasks_def)

lemma run_inv_step:
  fixes h :: "('t, 'v) obj list" and ts :: "('k, 't, 'v) task list"
  assumes inv: "run_inv shape rows h0 (ts, h)" and i: "i < length ts"
    and step: "task_step heap_result_ctor shape (ts ! i) h = (t', h')"
  shows "run_inv shape rows h0 (ts[i := t'], h')"
proof -
  from inv have len: "length ts = length rows" and h0: "length h0 \<le> length h"
    and tk: "take (length h0) h = h0"
    and ti: "\<And>j. j < length rows \<Longrightarrow> task_inv shape h (rows ! j) (ts ! j)"
    and ow: "\<And>j. j < length rows \<Longrightarrow> task_owned h (ts ! j) \<subseteq> {length h0..<length h}"
    and dj: "\<And>j k. j < length rows \<Longrightarrow> k < length rows \<Longrightarrow> j \<noteq> k \<Longrightarrow>
               task_owned h (ts ! j) \<inter> task_owned h (ts ! k) = {}"
    by (auto simp: run_inv_def)
  from i len have ir: "i < length rows" by simp
  note eff = task_step_effect [OF ti [OF ir] step]
  have other: "\<And>j. j < length rows \<Longrightarrow> j \<noteq> i \<Longrightarrow>
      task_inv shape h' (rows ! j) (ts ! j) \<and> task_owned h' (ts ! j) = task_owned h (ts ! j)"
    using eff(5) ti dj ir by blast
  have own_i: "task_owned h' t' \<subseteq> task_owned h (ts ! i) \<union> {length h..<length h'}"
    by (rule eff(2))
  have 1: "length (ts[i := t']) = length rows" using len by simp
  have 2: "length h0 \<le> length h'" using h0 eff(3) by simp
  have 3: "take (length h0) h' = h0"
  proof (rule nth_equalityI)
    show "length (take (length h0) h') = length h0" using 2 by simp
  next
    fix b assume "b < length (take (length h0) h')"
    then have b: "b < length h0" by simp
    with ow [OF ir] have "b \<notin> task_owned h (ts ! i)" by auto
    with eff(4) [of b] b h0 have "h' ! b = h ! b" by simp
    also have "h ! b = h0 ! b" using tk b by (metis nth_take)
    finally show "take (length h0) h' ! b = h0 ! b" using b by simp
  qed
  have 4: "\<forall>j < length rows. task_inv shape h' (rows ! j) ((ts[i := t']) ! j) \<and>
             task_owned h' ((ts[i := t']) ! j) \<subseteq> {length h0..<length h'}"
  proof (intro allI impI)
    fix j assume j: "j < length rows"
    show "task_inv shape h' (rows ! j) ((ts[i := t']) ! j) \<and>
             task_owned h' ((ts[i := t']) ! j) \<subseteq> {length h0..<length h'}"
    proof (cases "j = i")
      case True
      have "task_owned h (ts ! i) \<union> {length h..<length h'} \<subseteq> {length h0..<length h'}"
        using ow [OF ir] h0 eff(3) by (auto simp: subset_iff)
      with own_i have "task_owned h' t' \<subseteq> {length h0..<length h'}"
        by (rule subset_trans)
      with eff(1) True i show ?thesis by simp
    next
      case False
      have "task_owned h (ts ! j) \<subseteq> {length h0..<length h'}"
        using ow [OF j] eff(3) by (auto simp: subset_iff)
      with False other [OF j] show ?thesis by simp
    qed
  qed
  have 5: "\<forall>j < length rows. \<forall>k < length rows. j \<noteq> k \<longrightarrow>
             task_owned h' ((ts[i := t']) ! j) \<inter> task_owned h' ((ts[i := t']) ! k) = {}"
  proof (intro allI impI)
    fix j k assume j: "j < length rows" and k: "k < length rows" and ne: "j \<noteq> k"
    have new: "\<And>m. m < length rows \<Longrightarrow> m \<noteq> i \<Longrightarrow>
              task_owned h' t' \<inter> task_owned h (ts ! m) = {}"
    proof -
      fix m assume m: "m < length rows" "m \<noteq> i"
      from dj [OF ir m(1)] m(2) have "task_owned h (ts ! i) \<inter> task_owned h (ts ! m) = {}"
        by simp
      moreover from ow [OF m(1)] have "{length h..<length h'} \<inter> task_owned h (ts ! m) = {}"
        by auto
      ultimately show "task_owned h' t' \<inter> task_owned h (ts ! m) = {}"
        using own_i by blast
    qed
    show "task_owned h' ((ts[i := t']) ! j) \<inter> task_owned h' ((ts[i := t']) ! k) = {}"
    proof (cases "j = i")
      case True
      with ne have "k \<noteq> i" by simp
      with True i other [OF k] new [OF k] show ?thesis by simp
    next
      case False
      show ?thesis
      proof (cases "k = i")
        case True
        with False i other [OF j] new [OF j] show ?thesis by (simp add: Int_commute)
      next
        case kf: False
        with False other [OF j] other [OF k] dj [OF j k ne] show ?thesis by simp
      qed
    qed
  qed
  from 1 2 3 4 5 show ?thesis by (simp add: run_inv_def)
qed

lemma run_inv_schedule:
  "run_inv shape rows h0 st \<Longrightarrow>
   run_inv shape rows h0 (run_schedule heap_result_ctor shape sched st)"
proof (induction sched arbitrary: st)
  case Nil
  then show ?case by simp
next
  case (Cons i sched)
  obtain ts h where st: "st = (ts, h)" by (cases st)
  show ?case
  proof (cases "i < length ts")
    case True
    obtain t' h' where step: "task_step heap_result_ctor shape (ts ! i) h = (t', h')"
      by (cases "task_step heap_result_ctor shape (ts ! i) h")
    from run_inv_step [OF Cons.prems [unfolded st] True step]
    have "run_inv shape rows h0 (ts[i := t'], h')" .
    from Cons.IH [OF this] True step show ?thesis by (simp add: st)
  next
    case False
    with Cons.IH [OF Cons.prems] show ?thesis by (simp add: st)
  qed
qed

text \<open>
  Every merge finishes: a task that is scheduled as often as it has steps left has
  returned or raised.
\<close>

lemma task_step_progress:
  "task_step c x t h = (t', h') \<Longrightarrow> steps_left t' \<le> steps_left t - 1"
  by (induction c x t h rule: task_step.induct) (auto split: prod.splits sum.splits)

lemma task_finishes:
  "i < length ts \<Longrightarrow> steps_left (ts ! i) \<le> n \<Longrightarrow>
   steps_left (fst (run_schedule c x (replicate n i) (ts, h)) ! i) = 0"
proof (induction n arbitrary: ts h)
  case 0
  then show ?case by simp
next
  case (Suc n)
  obtain t' h' where step: "task_step c x (ts ! i) h = (t', h')"
    by (cases "task_step c x (ts ! i) h")
  from task_step_progress [OF step] Suc.prems have "steps_left t' \<le> n" by simp
  with Suc.IH [of "ts[i := t']" h'] Suc.prems(1) step show ?case by simp
qed

lemmas expand_eval = expand_def expand_pairs_def construction_def enumerate_pcolls_def
  Flatten_def pcoll_Map_def beam_Map_def pair_tag_with_value_def
  merge_tagged_vals_under_key_def result_ctor_tuple_def result_ctor_dict_def py_bool_def
  Let_def upt_conv_Cons input_pairs_def input_keys_def GroupByKey_ordered_def
  str_of_example_def apply_new_label_def

section \<open>Properties\<close>

subsection \<open>The constructor\<close>

text \<open>
  C6: the constructor raises ValueError exactly when some keyword argument is not named
  \<^verbatim>\<open>pipeline\<close>; with no keyword argument, or with \<^verbatim>\<open>pipeline\<close> alone, it succeeds and
  stores the pipeline (None when absent).
\<close>

theorem CoGroupByKey_init_error_iff:
  "(CoGroupByKey_init kwargs = Inl ValueError \<longleftrightarrow> (\<exists>kv \<in> set kwargs. fst kv \<noteq> ''pipeline''))
   \<and> (isl (CoGroupByKey_init kwargs) \<longleftrightarrow> (\<exists>kv \<in> set kwargs. fst kv \<noteq> ''pipeline''))
   \<and> CoGroupByKey_init [] = Inr \<lparr>pipeline = None\<rparr>
   \<and> CoGroupByKey_init [(''pipeline'', p)] = Inr \<lparr>pipeline = p\<rparr>"
  by (auto simp: CoGroupByKey_init_def kwargs_pop_def filter_empty_conv)

subsection \<open>Projections\<close>

text \<open>
  C8: KvSwap applied twice gives the collection back; Keys and Values of one pair
  collection are its first and second projections, and together they recover it.
\<close>

theorem KvSwap_involution_Keys_Values:
  "KvSwap (KvSwap x) = x
   \<and> Keys x = map fst x \<and> Values x = map snd x
   \<and> zip (Keys x) (Values x) = x"
proof -
  have "map ((\<lambda>k_v2. (snd k_v2, fst k_v2)) \<circ> (\<lambda>k_v2. (snd k_v2, fst k_v2))) x = x"
    by (induction x) simp_all
  then show ?thesis
    by (simp add: KvSwap_def Keys_def Values_def beam_Map_def zip_map_fst_snd)
qed

subsection \<open>RemoveDuplicates\<close>

text \<open>
  C7: whatever grouper the engine supplies, the output of RemoveDuplicates has the same set
  of elements as the input and holds each of them once; so it is at most as long as the
  input, and as long exactly when the input has no duplicates.
\<close>

theorem RemoveDuplicates_distinct_elements:
  assumes "is_GroupByKey gbk"
  shows "set (RemoveDuplicates gbk pcoll) = set pcoll
       \<and> distinct (RemoveDuplicates gbk pcoll)
       \<and> length (RemoveDuplicates gbk pcoll) \<le> length pcoll
       \<and> (length (RemoveDuplicates gbk pcoll) = length pcoll \<longleftrightarrow> distinct pcoll)"
proof -
  let ?out = "RemoveDuplicates gbk pcoll"
  have out: "?out = map fst (gbk (map (\<lambda>v. (v, ())) pcoll))"
    by (simp add: RemoveDuplicates_def Keys_def CombinePerKey_def beam_Map_def comp_def)
  have d: "distinct ?out" and s: "set ?out = set pcoll"
    using grouper_keys [OF assms, of "map (\<lambda>v. (v, ())) pcoll"]
    by (simp_all add: out image_image)
  from d s have len: "length ?out = card (set pcoll)"
    by (metis distinct_card)
  have "card (set pcoll) \<le> length pcoll" by (rule card_length)
  moreover have "card (set pcoll) = length pcoll \<longleftrightarrow> distinct pcoll"
    using card_distinct distinct_card by blast
  ultimately show ?thesis using d s len by simp
qed

theorem RemoveDuplicates_distinct_elements_witness:
  "is_GroupByKey (GroupByKey_ordered :: (nat \<times> unit) list \<Rightarrow> (nat \<times> unit list) list)
   \<and> set (RemoveDuplicates GroupByKey_ordered [3, 1, 3, 2, 1 :: nat]) = {1, 2, 3}
   \<and> distinct (RemoveDuplicates GroupByKey_ordered [3, 1, 3, 2, 1 :: nat])
   \<and> length (RemoveDuplicates GroupByKey_ordered [3, 1, 3, 2, 1 :: nat]) < 5"
  using RemoveDuplicates_distinct_elements [OF GroupByKey_ordered_ok, of "[3, 1, 3, 2, 1 :: nat]"]
  by (auto simp: GroupByKey_ordered_ok)

subsection \<open>CoGroupByKey: the rows\<close>

text \<open>
  C1: whenever the construction of the pipeline raises nothing, \<^verbatim>\<open>expand\<close> returns
  rows; and the rows that \<^verbatim>\<open>expand\<close> returns have pairwise distinct keys, which are
  exactly the keys that occur in some input collection, for a dict of inputs and for a
  sequence of inputs alike.
\<close>

theorem CoGroupByKey_one_row_per_key:
  assumes gbk: "is_GroupByKey gbk"
  shows "(\<forall>flat. construction chk truthy str_of apply_step self (input_pairs pcolls) = Inr flat
            \<longrightarrow> (\<exists>rows. expand chk truthy str_of apply_step gbk self pcolls = Inr rows))
       \<and> (\<forall>rows. expand chk truthy str_of apply_step gbk self pcolls = Inr rows
            \<longrightarrow> distinct (map fst rows) \<and> set (map fst rows) = input_keys pcolls)"
proof (intro conjI allI impI)
  fix flat
  assume "construction chk truthy str_of apply_step self (input_pairs pcolls) = Inr flat"
  from expand_succeeds [OF gbk this]
  show "\<exists>rows. expand chk truthy str_of apply_step gbk self pcolls = Inr rows" .
next
  fix rows
  assume ex: "expand chk truthy str_of apply_step gbk self pcolls = Inr rows"
  from expand_Inr_construction [OF ex] obtain flat
    where con: "construction chk truthy str_of apply_step self (input_pairs pcolls) = Inr flat"
    by blast
  let ?rows = "gbk (tagged_elements (input_pairs pcolls))"
  have "distinct (map fst ?rows)" "set (map fst ?rows) = input_keys pcolls"
    using grouper_keys [OF gbk, of "tagged_elements (input_pairs pcolls)"]
    by (simp_all add: keys_tagged_elements input_keys_def)
  with expand_rows [OF gbk con] ex
  show "distinct (map fst rows)" "set (map fst rows) = input_keys pcolls"
    by (auto simp: comp_def image_image)
qed

theorem CoGroupByKey_one_row_per_key_witness:
  "(\<exists>rows. expand (\<lambda>c. None) (\<lambda>p. True) str_of_example apply_new_label GroupByKey_ordered
       \<lparr>pipeline = None\<rparr>
       (SeqInput [\<lparr>pcoll_pipeline = Some (0::nat), elements = [(1::nat, ''x''), (2, ''w'')]\<rparr>,
                  \<lparr>pcoll_pipeline = Some 0, elements = [(3, ''y''), (1, ''z'')]\<rparr>]) = Inr rows
     \<and> distinct (map fst rows) \<and> set (map fst rows) = {1, 2, 3})
   \<and> (\<exists>rows. expand (\<lambda>c. None) (\<lambda>p. True) str_of_example apply_new_label GroupByKey_ordered
       \<lparr>pipeline = None\<rparr>
       (DictInput [(Name ''a'', \<lparr>pcoll_pipeline = Some (0::nat), elements = [(1::nat, ''x'')]\<rparr>),
                   (Name ''b'', \<lparr>pcoll_pipeline = Some 0, elements = [(2, ''y'')]\<rparr>)]) = Inr rows
     \<and> distinct (map fst rows) \<and> set (map fst rows) = {1, 2})"
proof -
  let ?seq = "SeqInput [\<lparr>pcoll_pipeline = Some (0::nat), elements = [(1::nat, ''x''), (2, ''w'')]\<rparr>,
                  \<lparr>pcoll_pipeline = Some 0, elements = [(3, ''y''), (1, ''z'')]\<rparr>]
                :: (string, (nat, nat \<times> string) pcoll) pvalueish"
  let ?dict = "DictInput [(Name ''a'', \<lparr>pcoll_pipeline = Some (0::nat), elements = [(1::nat, ''x'')]\<rparr>),
                   (Name ''b'', \<lparr>pcoll_pipeline = Some 0, elements = [(2, ''y'')]\<rparr>)]
                :: (string, (nat, nat \<times> string) pcoll) pvalueish"
  let ?self = "\<lparr>pipeline = None\<rparr> :: nat CoGroupByKey"
  note main = CoGroupByKey_one_row_per_key [OF GroupByKey_ordered_ok,
      of "\<lambda>c. None" "\<lambda>p. True" str_of_example apply_new_label "?self"]
  have "\<exists>flat. construction (\<lambda>c. None) (\<lambda>p. True) str_of_example apply_new_label ?self
                  (input_pairs ?seq) = Inr flat"
    by (simp add: expand_eval)
  with main [of "?seq"] obtain rows1
    where r1: "expand (\<lambda>c. None) (\<lambda>p. True) str_of_example apply_new_label GroupByKey_ordered
                 ?self ?seq = Inr rows1"
    by blast
  with main [of "?seq"] have p1: "distinct (map fst rows1)" "set (map fst rows1) = input_keys ?seq"
    by blast+
  have k1: "input_keys ?seq = {1, 2, 3}" by (auto simp: expand_eval)
  have "\<exists>flat. construction (\<lambda>c. None) (\<lambda>p. True) str_of_example apply_new_label ?self
                  (input_pairs ?dict) = Inr flat"
    by (simp add: expand_eval)
  with main [of "?dict"] obtain rows2
    where r2: "expand (\<lambda>c. None) (\<lambda>p. True) str_of_example apply_new_label GroupByKey_ordered
                 ?self ?dict = Inr rows2"
    by blast
  with main [of "?dict"] have p2: "distinct (map fst rows2)" "set (map fst rows2) = input_keys ?dict"
    by blast+
  have k2: "input_keys ?dict = {1, 2}" by (auto simp: expand_eval)
  from r1 p1 k1 r2 p2 k2 show ?thesis by auto
qed

text \<open>
  C2: whenever the construction of the pipeline raises nothing, \<^verbatim>\<open>expand\<close> returns
  rows; and every row that it returns has the shape of the input: for a dict of inputs a
  dict whose keys are exactly the tags of the input, for a sequence of N inputs a tuple
  of N lists; and a tag none of whose collections carries the key of the row holds the
  empty list.
\<close>

theorem CoGroupByKey_uniform_shape:
  assumes gbk: "is_GroupByKey gbk"
  shows "(\<forall>flat. construction chk truthy str_of apply_step self (input_pairs pcolls) = Inr flat
            \<longrightarrow> (\<exists>rows. expand chk truthy str_of apply_step gbk self pcolls = Inr rows))
       \<and> (\<forall>rows k c. expand chk truthy str_of apply_step gbk self pcolls = Inr rows
                      \<and> (k, c) \<in> set rows \<longrightarrow>
            (case pcolls of
               DictInput d \<Rightarrow>
                 (\<exists>m. c = DictValue m \<and> dom m = set (map fst d) \<and>
                    (\<forall>tag \<in> set (map fst d).
                       (\<forall>tc \<in> set d. fst tc = tag \<longrightarrow> k \<notin> fst ` set (elements (snd tc)))
                       \<longrightarrow> m tag = Some []))
             | SeqInput s \<Rightarrow>
                 (\<exists>t. c = TupleValue t \<and> length t = length s \<and>
                    (\<forall>i < length s. k \<notin> fst ` set (elements (s ! i)) \<longrightarrow> t ! i = []))))"
proof (intro conjI allI impI)
  fix flat
  assume "construction chk truthy str_of apply_step self (input_pairs pcolls) = Inr flat"
  from expand_succeeds [OF gbk this]
  show "\<exists>rows. expand chk truthy str_of apply_step gbk self pcolls = Inr rows" .
next
  fix rows k c
  assume a: "expand chk truthy str_of apply_step gbk self pcolls = Inr rows \<and> (k, c) \<in> set rows"
  then have ex: "expand chk truthy str_of apply_step gbk self pcolls = Inr rows"
    and kc: "(k, c) \<in> set rows" by simp_all
  let ?ps = "input_pairs pcolls"
  from expand_row_origin [OF gbk ex kc] obtain grouped
    where row: "(k, grouped) \<in> set (gbk (tagged_elements ?ps))"
      and c: "c = (case pcolls of
                  DictInput d \<Rightarrow>
                    DictValue (\<lambda>tag. if tag \<in> fst ` set d then Some (slot tag grouped)
                                      else None)
                | SeqInput s \<Rightarrow>
                    TupleValue (map (\<lambda>i. slot (Index (int i)) grouped) [0..<length s]))"
    by blast
  have rel: "GroupByKey_rel (tagged_elements ?ps) (gbk (tagged_elements ?ps))"
    using gbk by (simp add: is_GroupByKey_def)
  show "case pcolls of
               DictInput d \<Rightarrow>
                 (\<exists>m. c = DictValue m \<and> dom m = set (map fst d) \<and>
                    (\<forall>tag \<in> set (map fst d).
                       (\<forall>tc \<in> set d. fst tc = tag \<longrightarrow> k \<notin> fst ` set (elements (snd tc)))
                       \<longrightarrow> m tag = Some []))
             | SeqInput s \<Rightarrow>
                 (\<exists>t. c = TupleValue t \<and> length t = length s \<and>
                    (\<forall>i < length s. k \<notin> fst ` set (elements (s ! i)) \<longrightarrow> t ! i = []))"
  proof (cases pcolls)
    case (DictInput d)
    let ?m = "\<lambda>tag. if tag \<in> fst ` set d then Some (slot tag grouped) else None"
    have ps: "?ps = d" by (simp add: DictInput input_pairs_def)
    have "dom ?m = set (map fst d)" by (force split: if_splits)
    moreover have "\<forall>tag \<in> set (map fst d).
                   (\<forall>tc \<in> set d. fst tc = tag \<longrightarrow> k \<notin> fst ` set (elements (snd tc)))
                   \<longrightarrow> ?m tag = Some []"
      using slot_empty [OF rel row] by (simp add: ps)
    ultimately show ?thesis using c by (simp add: DictInput)
  next
    case (SeqInput s)
    let ?t = "map (\<lambda>i. slot (Index (int i)) grouped) [0..<length s]"
    have ps: "?ps = enumerate_pcolls s" by (simp add: SeqInput input_pairs_def)
    have "\<forall>i < length s. k \<notin> fst ` set (elements (s ! i)) \<longrightarrow> ?t ! i = []"
    proof (intro allI impI)
      fix i assume i: "i < length s" and k: "k \<notin> fst ` set (elements (s ! i))"
      have "\<forall>tc \<in> set ?ps. fst tc = Index (int i) \<longrightarrow> k \<notin> fst ` set (elements (snd tc))"
      proof (intro ballI impI)
        fix tc assume tc: "tc \<in> set ?ps" "fst tc = Index (int i)"
        then obtain j where "j < length s" "tc = (Index (int j), s ! j)"
          by (auto simp: ps in_enumerate_pcolls)
        with tc k show "k \<notin> fst ` set (elements (snd tc))" by simp
      qed
      from slot_empty [OF rel row this] i show "?t ! i = []" by simp
    qed
    then show ?thesis using c by (simp add: SeqInput)
  qed
qed

theorem CoGroupByKey_uniform_shape_witness:
  "(\<exists>m. expand (\<lambda>c. None) (\<lambda>p. True) str_of_example apply_new_label GroupByKey_ordered
       \<lparr>pipeline = None\<rparr>
       (DictInput [(Name ''a'', \<lparr>pcoll_pipeline = Some (0::nat), elements = [(1::nat, ''x'')]\<rparr>),
                   (Name ''b'', \<lparr>pcoll_pipeline = Some 0, elements = []\<rparr>)])
       = Inr [(1, DictValue m)]
     \<and> dom m = {Name ''a'', Name ''b''} \<and> m (Name ''b'') = Some [])
   \<and> (\<exists>t u. expand (\<lambda>c. None) (\<lambda>p. True) str_of_example apply_new_label GroupByKey_ordered
       \<lparr>pipeline = None\<rparr>
       (SeqInput [\<lparr>pcoll_pipeline = Some (0::nat), elements = [(1::nat, ''x'')]\<rparr>,
                  \<lparr>pcoll_pipeline = Some 0, elements = [(2, ''y'')]\<rparr>])
       = Inr [(1, TupleValue t), (2, TupleValue u)]
     \<and> length t = 2 \<and> length u = 2 \<and> t ! 1 = [] \<and> u ! 0 = [])"
proof -
  let ?d = "[(Name ''a'', \<lparr>pcoll_pipeline = Some (0::nat), elements = [(1::nat, ''x'')]\<rparr>),
             (Name ''b'', \<lparr>pcoll_pipeline = Some 0, elements = []\<rparr>)]
            :: (string tag \<times> (nat, nat \<times> string) pcoll) list"
  let ?s = "[\<lparr>pcoll_pipeline = Some (0::nat), elements = [(1::nat, ''x'')]\<rparr>,
             \<lparr>pcoll_pipeline = Some 0, elements = [(2, ''y'')]\<rparr>]"
  let ?seq = "SeqInput ?s :: (string, (nat, nat \<times> string) pcoll) pvalueish"
  let ?self = "\<lparr>pipeline = None\<rparr> :: nat CoGroupByKey"
  let ?run = "expand (\<lambda>c. None) (\<lambda>p. True) str_of_example apply_new_label GroupByKey_ordered ?self"
  note main = CoGroupByKey_uniform_shape [OF GroupByKey_ordered_ok,
      of "\<lambda>c. None" "\<lambda>p. True" str_of_example apply_new_label "?self"]
  note dict_shape = main [of "DictInput ?d", THEN conjunct2, unfolded pvalueish.case, rule_format]
  note seq_shape = main [of "?seq", THEN conjunct2, unfolded pvalueish.case, rule_format]
  have "\<exists>c. ?run (DictInput ?d) = Inr [(1, c)]"
    by (simp add: expand_eval)
  then obtain c where run1: "?run (DictInput ?d) = Inr [(1, c)]" ..
  have pre1: "?run (DictInput ?d) = Inr [(1, c)] \<and> (1, c) \<in> set [(1, c)]" using run1 by simp
  from dict_shape [OF pre1]
  obtain m where m: "c = DictValue m" and dm: "dom m = set (map fst ?d)"
    and em: "\<forall>tag \<in> set (map fst ?d).
               (\<forall>tc \<in> set ?d. fst tc = tag \<longrightarrow> 1 \<notin> fst ` set (elements (snd tc)))
               \<longrightarrow> m tag = Some []"
    by blast
  from dm have dm': "dom m = {Name ''a'', Name ''b''}" by simp
  have "Name ''b'' \<in> set (map fst ?d)" by simp
  moreover have "\<forall>tc \<in> set ?d. fst tc = Name ''b'' \<longrightarrow> 1 \<notin> fst ` set (elements (snd tc))"
    by simp
  ultimately have mb: "m (Name ''b'') = Some []" using em by blast
  have "\<exists>c1 c2. ?run ?seq = Inr [(1, c1), (2, c2)]"
    by (simp add: expand_eval)
  then obtain c1 c2 where run2: "?run ?seq = Inr [(1, c1), (2, c2)]" by blast
  have pre2: "?run ?seq = Inr [(1, c1), (2, c2)] \<and> (1, c1) \<in> set [(1, c1), (2, c2)]"
    using run2 by simp
  from seq_shape [OF pre2]
  obtain t where t: "c1 = TupleValue t" and lt: "length t = length ?s"
    and et: "\<forall>i < length ?s. 1 \<notin> fst ` set (elements (?s ! i)) \<longrightarrow> t ! i = []"
    by blast
  have pre3: "?run ?seq = Inr [(1, c1), (2, c2)] \<and> (2, c2) \<in> set [(1, c1), (2, c2)]"
    using run2 by simp
  from seq_shape [OF pre3]
  obtain u where u: "c2 = TupleValue u" and lu: "length u = length ?s"
    and eu: "\<forall>i < length ?s. 2 \<notin> fst ` set (elements (?s ! i)) \<longrightarrow> u ! i = []"
    by blast
  have "1 < length ?s" "(1::nat) \<notin> fst ` set (elements (?s ! 1))" by simp_all
  with et have t1: "t ! 1 = []" by blast
  have "0 < length ?s" "(2::nat) \<notin> fst ` set (elements (?s ! 0))" by simp_all
  with eu have u0: "u ! 0 = []" by blast
  from lt lu have l2: "length t = 2" "length u = 2" by simp_all
  have A: "\<exists>m. ?run (DictInput ?d) = Inr [(1, DictValue m)]
     \<and> dom m = {Name ''a'', Name ''b''} \<and> m (Name ''b'') = Some []"
    using run1 m dm' mb by blast
  have B: "\<exists>t u. ?run ?seq = Inr [(1, TupleValue t), (2, TupleValue u)]
     \<and> length t = 2 \<and> length u = 2 \<and> t ! 1 = [] \<and> u ! 0 = []"
    using run2 t u l2 t1 u0 by blast
  from A B show ?thesis by (rule conjI)
qed

text \<open>
  C9: a grouped row whose tags all belong to the tags the container was built from is
  merged without any exception: with the dict built from \<open>tags\<close> every key lookup
  succeeds, and with the tuple of \<open>n\<close> lists every index in \<open>0..n-1\<close> is in range.
\<close>

theorem merge_lookups_succeed:
  fixes grouped :: "('t tag \<times> 'v) list"
  shows
  "(fst ` set grouped \<subseteq> set tags \<longrightarrow>
      (\<exists>m. merge_tagged_vals_under_key (key, grouped) result_ctor_dict tags
              = Inr (key, DictValue m) \<and> dom m = set tags))
   \<and> ((\<forall>e \<in> set grouped. \<exists>i < n. fst e = Index (int i)) \<longrightarrow>
      (\<exists>t. merge_tagged_vals_under_key (key, grouped) result_ctor_tuple n
              = Inr (key, TupleValue t) \<and> length t = n))"
proof (intro conjI impI)
  assume "fst ` set grouped \<subseteq> set tags"
  from merge_dict_ok [OF this, of key]
  show "\<exists>m. merge_tagged_vals_under_key (key, grouped) result_ctor_dict tags
              = Inr (key, DictValue m) \<and> dom m = set tags"
    by (auto split: if_splits)
next
  assume "\<forall>e \<in> set grouped. \<exists>i < n. fst e = Index (int i)"
  from merge_tuple_ok [OF this, of key]
  show "\<exists>t. merge_tagged_vals_under_key (key, grouped) result_ctor_tuple n
              = Inr (key, TupleValue t) \<and> length t = n"
    by simp
qed

theorem merge_lookups_succeed_witness:
  "(\<exists>m. merge_tagged_vals_under_key (1::nat, [(Name ''a'', ''x'')])
            result_ctor_dict [Name ''a'', Name ''b''] = Inr (1, DictValue m)
        \<and> dom m = {Name ''a'', Name ''b''})
   \<and> (\<exists>t. merge_tagged_vals_under_key
            (1::nat, [(Index 1 :: unit tag, ''y''), (Index 0, ''x''), (Index 1, ''z'')])
            result_ctor_tuple 2 = Inr (1, TupleValue t)
        \<and> length t = 2)"
proof -
  have ex: "\<exists>i<2::nat. (0::int) = int i" by (rule exI [of _ 0]) simp
  show ?thesis
    using merge_lookups_succeed [of "[(Name ''a'', ''x'')]" "[Name ''a'', Name ''b'']" "1::nat" 2]
      merge_lookups_succeed [of "[(Index 1 :: unit tag, ''y''), (Index 0, ''x''), (Index 1, ''z'')]"
        "[]" "1::nat" 2]
    by (simp add: ex)
qed

subsection \<open>CoGroupByKey: the containers of different rows\<close>

text \<open>
  C3: the merges of the grouped rows run on one heap, their steps interleaved in any
  order. However they are scheduled, a row whose merge has returned holds a container
  that reads as the merge of that row alone; the objects of the container were all
  allocated after the start and none of them belongs to the container of another row;
  a merge that raised raises for that row alone as well; and no object that existed at
  the start has changed.
\<close>

theorem merge_rows_independent:
  assumes run: "run_schedule heap_result_ctor shape sched (start_tasks rows, h0) = (ts, h)"
    and i: "i < length rows"
  shows "(\<forall>key a. ts ! i = Done key a \<longrightarrow>
            key = fst (rows ! i) \<and>
            (\<exists>v. merge_tagged_vals_under_key (rows ! i) pure_result_ctor shape = Inr (key, v)
                 \<and> read_value h a = Some v) \<and>
            owned h a \<subseteq> {length h0..<length h} \<and>
            (\<forall>j < length rows. j \<noteq> i \<longrightarrow> owned h a \<inter> task_owned h (ts ! j) = {}))
       \<and> (\<forall>e. ts ! i = Failed e \<longrightarrow>
            merge_tagged_vals_under_key (rows ! i) pure_result_ctor shape = Inl e)
       \<and> take (length h0) h = h0"
proof -
  have "run_inv shape rows h0 (ts, h)"
    using run_inv_schedule [OF run_inv_start, of shape rows h0 sched] run by simp
  then have ti: "task_inv shape h (rows ! i) (ts ! i)"
    and ow: "task_owned h (ts ! i) \<subseteq> {length h0..<length h}"
    and dj: "\<And>j. j < length rows \<Longrightarrow> j \<noteq> i \<Longrightarrow>
               task_owned h (ts ! i) \<inter> task_owned h (ts ! j) = {}"
    and tk: "take (length h0) h = h0"
    using i by (auto simp: run_inv_def)
  obtain k g where row: "rows ! i = (k, g)" by (cases "rows ! i")
  show ?thesis
  proof (intro conjI allI impI)
    fix key a assume d: "ts ! i = Done key a"
    with ti show "key = fst (rows ! i)" by simp
    from d ti show "\<exists>v. merge_tagged_vals_under_key (rows ! i) pure_result_ctor shape = Inr (key, v)
                 \<and> read_value h a = Some v"
      by (auto simp: merge_tagged_vals_under_key_def row)
    from d ow show "owned h a \<subseteq> {length h0..<length h}" by simp
    fix j assume "j < length rows" "j \<noteq> i"
    from dj [OF this] d show "owned h a \<inter> task_owned h (ts ! j) = {}" by simp
  next
    fix e assume "ts ! i = Failed e"
    with ti show "merge_tagged_vals_under_key (rows ! i) pure_result_ctor shape = Inl e"
      by (simp add: merge_tagged_vals_under_key_def row)
  next
    show "take (length h0) h = h0" by (rule tk)
  qed
qed

theorem merge_rows_independent_witness:
  "run_schedule heap_result_ctor (TupleShape 2) [0, 1, 0, 1, 1, 0, 0, 1]
     (start_tasks [(1::nat, [(Index 0, ''x''), (Index 1 :: unit tag, ''y'')]),
                   (2, [(Index 1, ''z'')])], [])
   = ([Done 1 2, Done 2 5],
      [ListObj [''x''], ListObj [''y''], TupleObj [0, 1],
       ListObj [], ListObj [''z''], TupleObj [3, 4]])
   \<and> (\<exists>v. merge_tagged_vals_under_key (1::nat, [(Index 0, ''x''), (Index 1 :: unit tag, ''y'')])
             pure_result_ctor (TupleShape 2) = Inr (1, v)
          \<and> read_value [ListObj [''x''], ListObj [''y''], TupleObj [0, 1],
                         ListObj [], ListObj [''z''], TupleObj [3, 4]] 2 = Some v)
   \<and> owned [ListObj [''x''], ListObj [''y''], TupleObj [0, 1],
             ListObj [], ListObj [''z''], TupleObj [3, 4 :: nat] :: (unit, string) obj] 2
       \<inter> owned [ListObj [''x''], ListObj [''y''], TupleObj [0, 1],
             ListObj [], ListObj [''z''], TupleObj [3, 4 :: nat] :: (unit, string) obj] 5 = {}"
proof -
  let ?rows = "[(1::nat, [(Index 0, ''x''), (Index 1 :: unit tag, ''y'')]), (2, [(Index 1, ''z'')])]"
  let ?h = "[ListObj [''x''], ListObj [''y''], TupleObj [0, 1],
             ListObj [], ListObj [''z''], TupleObj [3, 4 :: nat] :: (unit, string) obj]"
  let ?ts = "[Done 1 2, Done 2 5] :: (nat, unit, string) task list"
  have run: "run_schedule heap_result_ctor (TupleShape 2) [0, 1, 0, 1, 1, 0, 0, 1]
               (start_tasks ?rows, []) = (?ts, ?h)"
    by (simp add: start_tasks_def heap_ctor_tuple_eq heap_getitem_append_def list_append_def
        upt_conv_Cons numeral_2_eq_2)
  have i: "0 < length ?rows" by simp
  from merge_rows_independent [OF run i]
  have d: "\<forall>key a. ?ts ! 0 = Done key a \<longrightarrow>
            key = fst (?rows ! 0) \<and>
            (\<exists>v. merge_tagged_vals_under_key (?rows ! 0) pure_result_ctor (TupleShape 2)
                    = Inr (key, v) \<and> read_value ?h a = Some v) \<and>
            owned ?h a \<subseteq> {length ([] :: (unit, string) obj list)..<length ?h} \<and>
            (\<forall>j < length ?rows. j \<noteq> 0 \<longrightarrow> owned ?h a \<inter> task_owned ?h (?ts ! j) = {})"
    by blast
  have "?ts ! 0 = Done 1 2" by simp
  with d have v: "\<exists>v. merge_tagged_vals_under_key (?rows ! 0) pure_result_ctor (TupleShape 2)
                    = Inr (1, v) \<and> read_value ?h 2 = Some v"
    and o: "\<forall>j < length ?rows. j \<noteq> 0 \<longrightarrow> owned ?h 2 \<inter> task_owned ?h (?ts ! j) = {}"
    by blast+
  have "1 < length ?rows" "(1::nat) \<noteq> 0" by simp_all
  with o have "owned ?h 2 \<inter> task_owned ?h (?ts ! 1) = {}" by blast
  then have "owned ?h 2 \<inter> owned ?h 5 = {}" by simp
  with run v show ?thesis by simp
qed

subsection \<open>CoGroupByKey: the order inside a slot\<close>

text \<open>
  C5: for a sequence of inputs and a grouper that keeps the order of every source,
  \<^verbatim>\<open>expand\<close> returns rows whenever the construction raises nothing, and in the row of
  key \<open>k\<close> the slot of source \<open>i\<close> holds the values of source \<open>i\<close> under \<open>k\<close> in the
  order of the source; the inputs \<^verbatim>\<open>c1=[(1,'x')]\<close>, \<^verbatim>\<open>c2=[(1,'y'),(1,'z')]\<close> give the
  row \<^verbatim>\<open>(1, (['x'], ['y','z']))\<close>. Nothing is assumed on the order across sources.
\<close>

theorem CoGroupByKey_slot_order:
  fixes s :: "('p, 'k \<times> 'v) pcoll list"
    and gbk :: "('k \<times> ('t tag \<times> 'v)) list \<Rightarrow> ('k \<times> ('t tag \<times> 'v) list) list"
  assumes gbk: "is_GroupByKey gbk" and ord: "keeps_source_order gbk"
  shows "(\<forall>flat. construction chk truthy str_of apply_step self (input_pairs (SeqInput s)) = Inr flat
            \<longrightarrow> (\<exists>rows. expand chk truthy str_of apply_step gbk self (SeqInput s) = Inr rows))
       \<and> (\<forall>rows k c. expand chk truthy str_of apply_step gbk self (SeqInput s) = Inr rows
                      \<and> (k, c) \<in> set rows \<longrightarrow>
            (\<exists>t. c = TupleValue t \<and> length t = length s \<and>
               (\<forall>i < length s. t ! i = source_values k (s ! i))))"
proof (intro conjI allI impI)
  fix flat
  assume "construction chk truthy str_of apply_step self (input_pairs (SeqInput s)) = Inr flat"
  from expand_succeeds [OF gbk this]
  show "\<exists>rows. expand chk truthy str_of apply_step gbk self (SeqInput s) = Inr rows" .
next
  fix rows k c
  assume a: "expand chk truthy str_of apply_step gbk self (SeqInput s) = Inr rows
             \<and> (k, c) \<in> set rows"
  then have ex: "expand chk truthy str_of apply_step gbk self (SeqInput s) = Inr rows"
    and kc: "(k, c) \<in> set rows" by simp_all
  let ?ps = "enumerate_pcolls s :: ('t tag \<times> ('p, 'k \<times> 'v) pcoll) list"
  have ps: "input_pairs (SeqInput s) = ?ps" by (simp add: input_pairs_def)
  from expand_row_origin [OF gbk ex kc] obtain grouped
    where row: "(k, grouped) \<in> set (gbk (tagged_elements ?ps))"
      and c: "c = TupleValue (map (\<lambda>i. slot (Index (int i)) grouped) [0..<length s])"
    by (auto simp: ps)
  let ?t = "map (\<lambda>i. slot (Index (int i)) grouped) [0..<length s]"
  have "\<forall>i < length s. ?t ! i = source_values k (s ! i)"
  proof (intro allI impI)
    fix i assume i: "i < length s"
    have mem: "(Index (int i), s ! i) \<in> set ?ps" using i by (rule enumerate_pcolls_nth)
    have d: "distinct (map fst ?ps)" by (rule enumerate_pcolls_props(4))
    from ord row have "slot (Index (int i)) grouped =
        slot (Index (int i)) (map snd (filter (\<lambda>kv. fst kv = k) (tagged_elements ?ps)))"
      by (force simp: keeps_source_order_def)
    also have "\<dots> = source_values k (s ! i)"
      by (simp only: slot_tagged_elements concat_select_distinct [OF d mem])
    finally show "?t ! i = source_values k (s ! i)" using i by simp
  qed
  with c show "\<exists>t. c = TupleValue t \<and> length t = length s \<and>
               (\<forall>i < length s. t ! i = source_values k (s ! i))"
    by (intro exI [of _ ?t]) simp
qed

theorem CoGroupByKey_slot_order_witness:
  "expand (\<lambda>c. None) (\<lambda>p. True) str_of_example apply_new_label GroupByKey_ordered
     \<lparr>pipeline = None\<rparr>
     (SeqInput [\<lparr>pcoll_pipeline = Some (0::nat), elements = [(1::nat, ''x'')]\<rparr>,
                \<lparr>pcoll_pipeline = Some 0, elements = [(1, ''y''), (1, ''z'')]\<rparr>])
     = Inr [(1, TupleValue [[''x''], [''y'', ''z'']])]
   \<and> (\<exists>t. TupleValue [[''x''], [''y'', ''z'']] = (TupleValue t :: (string, string) result_value)
        \<and> length t = 2
        \<and> t ! 0 = source_values (1::nat) \<lparr>pcoll_pipeline = Some (0::nat),
                                           elements = [(1, ''x'')]\<rparr>
        \<and> t ! 1 = source_values (1::nat) \<lparr>pcoll_pipeline = Some (0::nat),
                                           elements = [(1, ''y''), (1, ''z'')]\<rparr>)"
proof -
  let ?s = "[\<lparr>pcoll_pipeline = Some (0::nat), elements = [(1::nat, ''x'')]\<rparr>,
             \<lparr>pcoll_pipeline = Some 0, elements = [(1, ''y''), (1, ''z'')]\<rparr>]"
  let ?self = "\<lparr>pipeline = None\<rparr> :: nat CoGroupByKey"
  let ?c = "TupleValue [[''x''], [''y'', ''z'']] :: (string, string) result_value"
  let ?run = "expand (\<lambda>c. None) (\<lambda>p. True) str_of_example apply_new_label GroupByKey_ordered
                ?self (SeqInput ?s)"
  note shape = CoGroupByKey_slot_order [OF GroupByKey_ordered_ok GroupByKey_ordered_keeps_order,
      of "\<lambda>c. None" "\<lambda>p. True" str_of_example apply_new_label "?self" "?s",
      THEN conjunct2, rule_format]
  have run: "?run = Inr [(1, ?c)]"
    by (simp add: expand_eval)
  have pre: "?run = Inr [(1, ?c)] \<and> (1, ?c) \<in> set [(1::nat, ?c)]" using run by simp
  from shape [OF pre]
  obtain t where t: "?c = TupleValue t" and lt: "length t = length ?s"
    and slots: "\<forall>i < length ?s. t ! i = source_values 1 (?s ! i)"
    by blast
  have "0 < length ?s" "1 < length ?s" by simp_all
  with slots have "t ! 0 = source_values 1 (?s ! 0)" "t ! 1 = source_values 1 (?s ! 1)"
    by blast+
  then have s0: "t ! 0 = source_values (1::nat) \<lparr>pcoll_pipeline = Some (0::nat),
                                           elements = [(1, ''x'')]\<rparr>"
    and s1: "t ! 1 = source_values (1::nat) \<lparr>pcoll_pipeline = Some (0::nat),
                                           elements = [(1, ''y''), (1, ''z'')]\<rparr>"
    by simp_all
  from lt have "length t = 2" by simp
  with run t s0 s1 show ?thesis by blast
qed

subsection \<open>CoGroupByKey: the check of the pipelines\<close>

text \<open>
  C4: when the pipeline given to the constructor is true and some input collection belongs
  to another pipeline, \<^verbatim>\<open>expand\<close> raises, and the exception does not depend on the
  grouper: nothing is grouped. When \<^verbatim>\<open>_check_pcollection\<close> accepts every input, the
  exception is the AssertionError of the comparison of the pipelines.
\<close>

theorem expand_context_mismatch:
  assumes sup: "py_bool truthy (pipeline self)"
    and diff: "\<exists>tc \<in> set (input_pairs pcolls). pcoll_pipeline (snd tc) \<noteq> pipeline self"
  shows "(\<exists>e. \<forall>gbk. expand chk truthy str_of apply_step gbk self pcolls = Inl e) \<and>
         ((\<forall>tc \<in> set (input_pairs pcolls). chk (snd tc) = None) \<longrightarrow>
          (\<forall>gbk. expand chk truthy str_of apply_step gbk self pcolls = Inl AssertionError))"
proof -
  from sup diff have "check_loop chk truthy self (input_pairs pcolls) \<noteq> None"
    by (auto simp: check_loop_None_iff)
  then obtain e where e: "check_loop chk truthy self (input_pairs pcolls) = Some e" by auto
  have 1: "\<exists>e. \<forall>gbk. expand chk truthy str_of apply_step gbk self pcolls = Inl e"
    using expand_check_fail [OF e] by blast
  have 2: "(\<forall>tc \<in> set (input_pairs pcolls). chk (snd tc) = None) \<longrightarrow>
          (\<forall>gbk. expand chk truthy str_of apply_step gbk self pcolls = Inl AssertionError)"
  proof (intro impI allI)
    fix gbk
    assume "\<forall>tc \<in> set (input_pairs pcolls). chk (snd tc) = None"
    with check_loop_Some [OF e] have "e = AssertionError" by auto
    with expand_check_fail [OF e]
    show "expand chk truthy str_of apply_step gbk self pcolls = Inl AssertionError"
      by simp
  qed
  from 1 2 show ?thesis by simp
qed

theorem expand_context_mismatch_witness:
  "py_bool (\<lambda>p. True) (pipeline \<lparr>pipeline = Some (7::nat)\<rparr>)
   \<and> expand (\<lambda>c. None) (\<lambda>p. True) str_of_example apply_new_label GroupByKey_ordered
       \<lparr>pipeline = Some (7::nat)\<rparr>
       (SeqInput [\<lparr>pcoll_pipeline = Some 7, elements = [(1::nat, ''x'')]\<rparr>,
                  \<lparr>pcoll_pipeline = Some 8, elements = [(1, ''y'')]\<rparr>])
     = Inl AssertionError"
  using expand_context_mismatch [of "\<lambda>p. True" "\<lparr>pipeline = Some (7::nat)\<rparr>"
       "SeqInput [\<lparr>pcoll_pipeline = Some 7, elements = [(1::nat, ''x'')]\<rparr>,
                  \<lparr>pcoll_pipeline = Some 8, elements = [(1, ''y'')]\<rparr>]
         :: (string, (nat, nat \<times> string) pcoll) pvalueish" "\<lambda>c. None"
       str_of_example apply_new_label]
  by (simp add: py_bool_def input_pairs_def enumerate_pcolls_def upt_conv_Cons)

text \<open>
  C10: when the pipeline of the transform is absent, None or false, the comparison of the
  pipelines is never made: the check of the inputs fails exactly when
  \<^verbatim>\<open>_check_pcollection\<close> raises, with its exception, and inputs that it accepts pass
  the check whatever their pipelines are.
\<close>

theorem expand_no_context_skips_assert:
  assumes "\<not> py_bool truthy (pipeline self)"
  shows "(check_loop chk truthy self (input_pairs pcolls) = None \<longleftrightarrow>
            (\<forall>tc \<in> set (input_pairs pcolls). chk (snd tc) = None))
       \<and> (\<forall>e. check_loop chk truthy self (input_pairs pcolls) = Some e \<longrightarrow>
            (\<exists>tc \<in> set (input_pairs pcolls). chk (snd tc) = Some e))"
proof (intro conjI allI impI)
  show "check_loop chk truthy self (input_pairs pcolls) = None \<longleftrightarrow>
            (\<forall>tc \<in> set (input_pairs pcolls). chk (snd tc) = None)"
    using assms by (simp add: check_loop_None_iff)
next
  fix e assume "check_loop chk truthy self (input_pairs pcolls) = Some e"
  from check_loop_Some [OF this] assms
  show "\<exists>tc \<in> set (input_pairs pcolls). chk (snd tc) = Some e" by auto
qed

theorem expand_no_context_skips_assert_witness:
  "\<not> py_bool (\<lambda>p. True) (pipeline (\<lparr>pipeline = None\<rparr> :: nat CoGroupByKey))
   \<and> check_loop (\<lambda>c. None) (\<lambda>p. True) \<lparr>pipeline = None\<rparr>
        (input_pairs (SeqInput [\<lparr>pcoll_pipeline = Some (7::nat), elements = [(1::nat, ''x'')]\<rparr>,
                  \<lparr>pcoll_pipeline = Some 8, elements = [(1, ''y'')]\<rparr>]
         :: (string, (nat, nat \<times> string) pcoll) pvalueish)) = None
   \<and> expand (\<lambda>c. None) (\<lambda>p. True) str_of_example apply_new_label GroupByKey_ordered
       \<lparr>pipeline = None\<rparr>
       (SeqInput [\<lparr>pcoll_pipeline = Some (7::nat), elements = [(1::nat, ''x'')]\<rparr>,
                  \<lparr>pcoll_pipeline = Some 8, elements = [(1, ''y'')]\<rparr>])
     = Inl ValueError"
proof -
  let ?in = "SeqInput [\<lparr>pcoll_pipeline = Some (7::nat), elements = [(1::nat, ''x'')]\<rparr>,
                  \<lparr>pcoll_pipeline = Some 8, elements = [(1, ''y'')]\<rparr>]
         :: (string, (nat, nat \<times> string) pcoll) pvalueish"
  let ?self = "\<lparr>pipeline = None\<rparr> :: nat CoGroupByKey"
  have f: "\<not> py_bool (\<lambda>p. True) (pipeline ?self)" by (simp add: py_bool_def)
  from expand_no_context_skips_assert [OF f, of "\<lambda>c. None" "?in"]
  have c: "check_loop (\<lambda>c. None) (\<lambda>p. True) ?self (input_pairs ?in) = None" by simp
  have v: "expand (\<lambda>c. None) (\<lambda>p. True) str_of_example apply_new_label GroupByKey_ordered
             ?self ?in = Inl ValueError"
    by (simp add: expand_eval)
  from f c v show ?thesis by simp
qed

end
